theory Spec2Isabelle
  imports Complex_Main
begin

section \<open>Python values used by the patient application\<close>

text \<open>
  The exceptions that the modelled code can meet.  \<open>ValueError\<close> and \<open>TypeError\<close> come
  from \<^verbatim>\<open>int(...)\<close> and \<^verbatim>\<open>range(...)\<close>, \<open>OverflowError\<close> and \<open>ZeroDivisionError\<close> from
  \<^verbatim>\<open>/\<close> on integers and from binding an integer outside 64 bits to an SQL parameter, and the
  three \<^verbatim>\<open>sqlite3\<close> exceptions from the storage engine.
\<close>

datatype py_error =
    ValueError
  | TypeError
  | OverflowError
  | ZeroDivisionError
  | IntegrityError
  | OperationalError
  | DatabaseError

subsection \<open>Strings\<close>

text \<open>
  A Python string is the list of its Unicode code points.  \<open>ascii\<close> turns a literal of this
  theory into such a string.
\<close>

type_synonym py_str = "nat list"

definition ascii :: "string \<Rightarrow> py_str" where
  "ascii s = map of_char s"

subsection \<open>\<^verbatim>\<open>int(age)\<close>: parsing a decimal literal\<close>

text \<open>
  \<^verbatim>\<open>int(s)\<close> on a string first brings a string with a character beyond ASCII to ASCII: a
  Unicode space becomes a blank, a Unicode decimal digit the ASCII digit of its value, and
  at any other character from 127 on the string ends in a question mark.  The white space
  and the decimal digits are those of Unicode 14, the tables of CPython 3.11; a block of
  decimal digits is ten code points long and starts at its zero.  Then \<^verbatim>\<open>int\<close> skips white
  space on both sides, reads an optional sign and then decimal digits, where single
  underscores may separate digits; anything else is a \<open>ValueError\<close>, as is a literal of more
  than 4300 digits (the interpreter's default \<^verbatim>\<open>sys.int_info.default_max_str_digits\<close>).
  \<^verbatim>\<open>int(None)\<close> is a \<open>TypeError\<close>.
\<close>

definition Py_ISSPACE :: "nat \<Rightarrow> bool" where
  "Py_ISSPACE c \<longleftrightarrow> c \<in> set [9, 10, 11, 12, 13, 32]"

definition Py_UNICODE_ISSPACE :: "nat \<Rightarrow> bool" where
  "Py_UNICODE_ISSPACE c \<longleftrightarrow>
     c \<in> set [9, 10, 11, 12, 13, 28, 29, 30, 31, 32, 133, 160, 5760, 8192, 8193, 8194, 8195,
                8196, 8197, 8198, 8199, 8200, 8201, 8202, 8232, 8233, 8239, 8287, 12288]"

definition decimal_zeros :: "nat list" where
  "decimal_zeros =
     [48, 1632, 1776, 1984, 2406, 2534, 2662, 2790, 2918, 3046, 3174, 3302, 3430, 3558,
      3664, 3792, 3872, 4160, 4240, 6112, 6160, 6470, 6608, 6784, 6800, 6992, 7088, 7232,
      7248, 42528, 43216, 43264, 43472, 43504, 43600, 44016, 65296, 66720, 68912, 69734,
      69872, 69942, 70096, 70384, 70736, 70864, 71248, 71360, 71472, 71904, 72016, 72784,
      73040, 73120, 92768, 92864, 93008, 120782, 120792, 120802, 120812, 120822, 123200,
      123632, 125264, 130032]"

definition Py_UNICODE_TODECIMAL :: "nat \<Rightarrow> nat option" where
  "Py_UNICODE_TODECIMAL c =
     (case filter (\<lambda>z. z \<le> c \<and> c < z + 10) decimal_zeros of
        [] \<Rightarrow> None
      | z # _ \<Rightarrow> Some (c - z))"

fun transform :: "py_str \<Rightarrow> py_str" where
  "transform [] = []"
| "transform (ch # rest) =
     (if ch < 127 then ch # transform rest
      else if Py_UNICODE_ISSPACE ch then of_char (CHR '' '') # transform rest
      else (case Py_UNICODE_TODECIMAL ch of
              None \<Rightarrow> [of_char (CHR ''?'')]
            | Some decimal \<Rightarrow> (of_char (CHR ''0'') + decimal) # transform rest))"

definition TransformDecimalAndSpaceToASCII :: "py_str \<Rightarrow> py_str" where
  "TransformDecimalAndSpaceToASCII s = (if list_all (\<lambda>ch. ch < 128) s then s else transform s)"

definition is_digit :: "nat \<Rightarrow> bool" where
  "is_digit c \<longleftrightarrow> of_char (CHR ''0'') \<le> c \<and> c \<le> of_char (CHR ''9'')"

definition digit_value :: "nat \<Rightarrow> int" where
  "digit_value c = int c - int (of_char (CHR ''0''))"

definition underscore :: nat where
  "underscore = of_char (CHR ''_'')"

definition max_str_digits :: nat where
  "max_str_digits = 4300"

fun no_double_underscore :: "py_str \<Rightarrow> bool" where
  "no_double_underscore (a # b # cs) \<longleftrightarrow>
     \<not> (a = underscore \<and> b = underscore) \<and> no_double_underscore (b # cs)"
| "no_double_underscore cs \<longleftrightarrow> True"

definition valid_digits :: "py_str \<Rightarrow> bool" where
  "valid_digits ds \<longleftrightarrow>
     ds \<noteq> [] \<and> hd ds \<noteq> underscore \<and> last ds \<noteq> underscore \<and> no_double_underscore ds
     \<and> length (filter is_digit ds) \<le> max_str_digits"

definition digits_to_int :: "py_str \<Rightarrow> int" where
  "digits_to_int ds = foldl (\<lambda>acc c. 10 * acc + digit_value c) 0 (filter is_digit ds)"

definition py_int_str :: "py_str \<Rightarrow> py_error + int" where
  "py_int_str s =
     (let t = dropWhile Py_ISSPACE (TransformDecimalAndSpaceToASCII s);
          neg = (t \<noteq> [] \<and> hd t = of_char (CHR ''-''));
          u = (if t \<noteq> [] \<and> (hd t = of_char (CHR ''+'') \<or> hd t = of_char (CHR ''-'')) then tl t else t);
          ds = takeWhile (\<lambda>c. is_digit c \<or> c = underscore) u;
          rest = dropWhile Py_ISSPACE (dropWhile (\<lambda>c. is_digit c \<or> c = underscore) u)
      in if valid_digits ds \<and> rest = []
         then Inr (if neg then - digits_to_int ds else digits_to_int ds)
         else Inl ValueError)"

definition py_int :: "py_str option \<Rightarrow> py_error + int" where
  "py_int v = (case v of None \<Rightarrow> Inl TypeError | Some s \<Rightarrow> py_int_str s)"

subsection \<open>Floats: \<^verbatim>\<open>total_age / total_count\<close> and \<^verbatim>\<open>round(average_age, 2)\<close>\<close>

text \<open>
  A Python float is an IEEE 754 binary64 number, modelled by its exact rational value.
  \<^verbatim>\<open>a / b\<close> on two integers is the binary64 number nearest to the exact quotient (ties to
  the even significand); it raises \<open>ZeroDivisionError\<close> when \<open>b\<close> is zero and
  \<open>OverflowError\<close> when the rounded quotient is beyond the largest finite float.
  \<^verbatim>\<open>round(x, n)\<close> rounds the exact value of \<open>x\<close> to \<open>n\<close> decimals (ties to even) and
  returns the float nearest to that decimal.
\<close>

function bit_length :: "int \<Rightarrow> nat" where
  "bit_length n = (if n \<le> 0 then 0 else Suc (bit_length (n div 2)))"
  by pat_completeness auto
termination
  by (relation "measure nat") auto

declare bit_length.simps [simp del]

definition pow2 :: "int \<Rightarrow> rat" where
  "pow2 e = (if 0 \<le> e then 2 ^ nat e else 1 / 2 ^ nat (- e))"

definition floor_log2 :: "int \<Rightarrow> int \<Rightarrow> int" where
  "floor_log2 n d =
     (let k = int (bit_length n) - int (bit_length d)
      in if d * 2 ^ nat k \<le> n * 2 ^ nat (- k) then k else k - 1)"

definition round_half_even :: "int \<Rightarrow> int \<Rightarrow> int" where
  "round_half_even n d =
     (let q = n div d; r = n mod d
      in if 2 * r < d then q else if d < 2 * r then q + 1 else if even q then q else q + 1)"

definition nearest_binary64 :: "int \<Rightarrow> int \<Rightarrow> rat" where
  "nearest_binary64 n d =
     (if n = 0 then 0
      else let e = max (floor_log2 \<bar>n\<bar> d) (- 1022);
               s = 52 - e;
               m = round_half_even (n * 2 ^ nat s) (d * 2 ^ nat (- s))
           in of_int m * pow2 (- s))"

definition py_truediv :: "int \<Rightarrow> int \<Rightarrow> py_error + rat" where
  "py_truediv a b =
     (if b = 0 then Inl ZeroDivisionError
      else let q = nearest_binary64 (a * sgn b) \<bar>b\<bar>
           in if 2 ^ 1024 \<le> \<bar>q\<bar> then Inl OverflowError else Inr q)"

definition py_round :: "rat \<Rightarrow> nat \<Rightarrow> rat" where
  "py_round x ndigits =
     (let (p, q) = quotient_of x
      in nearest_binary64 (round_half_even (p * 10 ^ ndigits) q) (10 ^ ndigits))"

subsection \<open>\<^verbatim>\<open>range(start, stop, step)\<close> and slices\<close>

definition py_range :: "int \<Rightarrow> int \<Rightarrow> int \<Rightarrow> py_error + int list" where
  "py_range start stop step =
     (if step = 0 then Inl ValueError
      else if 0 < step
      then Inr (map (\<lambda>k. start + int k * step) [0..<nat ((stop - start + step - 1) div step)])
      else Inr (map (\<lambda>k. start + int k * step) [0..<nat ((start - stop - step - 1) div (- step))]))"

definition slice_index :: "nat \<Rightarrow> int \<Rightarrow> nat" where
  "slice_index n k = (if k < 0 then nat (max 0 (int n + k)) else min (nat k) n)"

definition slice :: "'a list \<Rightarrow> int \<Rightarrow> int \<Rightarrow> 'a list" where
  "slice xs i j = drop (slice_index (length xs) i) (take (slice_index (length xs) j) xs)"

section \<open>The patient record (\<^verbatim>\<open>model.py\<close>)\<close>

text \<open>
  A \<^verbatim>\<open>Patient\<close> object: the identifier is \<^verbatim>\<open>None\<close> until the store assigns one; the other
  attributes are strings, or \<^verbatim>\<open>None\<close> when the caller left them out of the request.
\<close>

record Patient =
  id' :: "int option"
  name :: "py_str option"
  age :: "py_str option"
  disease :: "py_str option"

section \<open>The SQLite table \<^verbatim>\<open>patients\<close>\<close>

text \<open>
  The table \<^verbatim>\<open>patients(id INTEGER PRIMARY KEY AUTOINCREMENT, name TEXT NOT NULL,
  age TEXT NOT NULL, disease TEXT NOT NULL)\<close> is the list of its rows in rowid order, which
  is the order of a \<^verbatim>\<open>SELECT\<close> without \<^verbatim>\<open>ORDER BY\<close>.  \<open>sqlite_sequence\<close> is the largest rowid
  ever given out.  \<open>faults\<close> lists, for the connections still to come, the exception that
  the storage engine raises during that connection, if any: every function of
  \<^verbatim>\<open>db_services.py\<close> opens one connection and runs one statement in it.
\<close>

type_synonym row = "int \<times> py_str \<times> py_str \<times> py_str"

record db =
  patients_table :: "row list"
  sqlite_sequence :: int
  faults :: "py_error option list"

datatype sql =
    INSERT "py_str option" "py_str option" "py_str option"
  | SELECT_ALL
  | SELECT_WHERE_ID int
  | UPDATE "py_str option" "py_str option" "py_str option" "int option"
  | DELETE int

record cursor =
  fetchall :: "row list"
  lastrowid :: "int option"
  rowcount :: int

definition in_int64 :: "int \<Rightarrow> bool" where
  "in_int64 i \<longleftrightarrow> - (2 ^ 63) \<le> i \<and> i < 2 ^ 63"

definition largest_rowid :: "db \<Rightarrow> int" where
  "largest_rowid d = foldr max (map fst (patients_table d)) (sqlite_sequence d)"

fun run :: "sql \<Rightarrow> db \<Rightarrow> (py_error + cursor) \<times> db" where
  "run (INSERT n a ds) d =
     (case (n, a, ds) of
        (Some n', Some a', Some ds') \<Rightarrow>
          (if 2 ^ 63 - 1 \<le> largest_rowid d then (Inl OperationalError, d)
           else let i = largest_rowid d + 1
                in (Inr \<lparr>fetchall = [], lastrowid = Some i, rowcount = 1\<rparr>,
                    d\<lparr>patients_table := patients_table d @ [(i, n', a', ds')], sqlite_sequence := i\<rparr>))
      | _ \<Rightarrow> (Inl IntegrityError, d))"
| "run SELECT_ALL d =
     (Inr \<lparr>fetchall = patients_table d, lastrowid = None, rowcount = - 1\<rparr>, d)"
| "run (SELECT_WHERE_ID i) d =
     (if \<not> in_int64 i then (Inl OverflowError, d)
      else (Inr \<lparr>fetchall = filter (\<lambda>r. fst r = i) (patients_table d), lastrowid = None,
                 rowcount = - 1\<rparr>, d))"
| "run (UPDATE n a ds None) d =
     (Inr \<lparr>fetchall = [], lastrowid = None, rowcount = 0\<rparr>, d)"
| "run (UPDATE n a ds (Some i)) d =
     (if \<not> in_int64 i then (Inl OverflowError, d)
      else if filter (\<lambda>r. fst r = i) (patients_table d) = []
      then (Inr \<lparr>fetchall = [], lastrowid = None, rowcount = 0\<rparr>, d)
      else (case (n, a, ds) of
              (Some n', Some a', Some ds') \<Rightarrow>
                (Inr \<lparr>fetchall = [], lastrowid = None,
                      rowcount = int (length (filter (\<lambda>r. fst r = i) (patients_table d)))\<rparr>,
                 d\<lparr>patients_table := map (\<lambda>r. if fst r = i then (i, n', a', ds') else r) (patients_table d)\<rparr>)
            | _ \<Rightarrow> (Inl IntegrityError, d)))"
| "run (DELETE i) d =
     (if \<not> in_int64 i then (Inl OverflowError, d)
      else (Inr \<lparr>fetchall = [], lastrowid = None,
                 rowcount = int (length (filter (\<lambda>r. fst r = i) (patients_table d)))\<rparr>,
            d\<lparr>patients_table := filter (\<lambda>r. fst r \<noteq> i) (patients_table d)\<rparr>))"

definition execute :: "sql \<Rightarrow> db \<Rightarrow> (py_error + cursor) \<times> db" where
  "execute stmt d =
     (case faults d of
        [] \<Rightarrow> run stmt d
      | None # later \<Rightarrow> run stmt (d\<lparr>faults := later\<rparr>)
      | Some e # later \<Rightarrow> (Inl e, d\<lparr>faults := later\<rparr>))"

section \<open>CRUD operations (\<^verbatim>\<open>db_services.py\<close>)\<close>

definition Patient_of_row :: "row \<Rightarrow> Patient" where
  "Patient_of_row r =
     (case r of (i, n, a, ds) \<Rightarrow> \<lparr>id' = Some i, name = Some n, age = Some a, disease = Some ds\<rparr>)"

definition create_patient :: "Patient \<Rightarrow> db \<Rightarrow> int option \<times> db" where
  "create_patient patient d =
     (case execute (INSERT (name patient) (age patient) (disease patient)) d of
        (Inr cur, d') \<Rightarrow> (lastrowid cur, d')
      | (Inl e, d') \<Rightarrow> (None, d'))"

definition read_all_patients :: "db \<Rightarrow> Patient list \<times> db" where
  "read_all_patients d =
     (case execute SELECT_ALL d of
        (Inr cur, d') \<Rightarrow> (map Patient_of_row (fetchall cur), d')
      | (Inl e, d') \<Rightarrow> ([], d'))"

definition read_patient_by_id :: "int \<Rightarrow> db \<Rightarrow> Patient option \<times> db" where
  "read_patient_by_id patient_id d =
     (case execute (SELECT_WHERE_ID patient_id) d of
        (Inr cur, d') \<Rightarrow>
          (case fetchall cur of [] \<Rightarrow> (None, d') | r # _ \<Rightarrow> (Some (Patient_of_row r), d'))
      | (Inl e, d') \<Rightarrow> (None, d'))"

definition update_patient :: "Patient \<Rightarrow> db \<Rightarrow> int \<times> db" where
  "update_patient patient d =
     (case execute (UPDATE (name patient) (age patient) (disease patient) (id' patient)) d of
        (Inr cur, d') \<Rightarrow> (rowcount cur, d')
      | (Inl e, d') \<Rightarrow> (0, d'))"

definition delete_patient :: "int \<Rightarrow> db \<Rightarrow> int \<times> db" where
  "delete_patient patient_id d =
     (case execute (DELETE patient_id) d of
        (Inr cur, d') \<Rightarrow> (rowcount cur, d')
      | (Inl e, d') \<Rightarrow> (0, d'))"

section \<open>Average age (\<^verbatim>\<open>db_services.py\<close>)\<close>

text \<open>
  The loop of \<^verbatim>\<open>calculate_batch_average_age\<close>, with its two accumulators.  The handler
  \<^verbatim>\<open>except (ValueError, TypeError)\<close> logs a warning and goes on with the next patient; any
  other exception leaves the function.
\<close>

fun batch_loop :: "Patient list \<Rightarrow> int \<Rightarrow> int \<Rightarrow> py_error + int \<times> int" where
  "batch_loop [] total_age valid_count = Inr (total_age, valid_count)"
| "batch_loop (patient # rest) total_age valid_count =
     (case py_int (age patient) of
        Inr a \<Rightarrow> batch_loop rest (total_age + a) (valid_count + 1)
      | Inl e \<Rightarrow>
          (if e = ValueError \<or> e = TypeError then batch_loop rest total_age valid_count
           else Inl e))"

definition calculate_batch_average_age :: "Patient list \<Rightarrow> py_error + int \<times> int" where
  "calculate_batch_average_age patients = batch_loop patients 0 0"

text \<open>
  \<^verbatim>\<open>calculate_average_age\<close> submits one task per batch and then reads the results in the
  order of submission.  A task works on its own slice and shares nothing with the others,
  so a future is the value that its task computes; \<^verbatim>\<open>f.result()\<close> re-raises the task's
  exception.
\<close>

fun join_results :: "(py_error + int \<times> int) list \<Rightarrow> int \<Rightarrow> int \<Rightarrow> py_error + int \<times> int" where
  "join_results [] total_age total_count = Inr (total_age, total_count)"
| "join_results (f # futures) total_age total_count =
     (case f of
        Inr (batch_total, batch_count) \<Rightarrow>
          join_results futures (total_age + batch_total) (total_count + batch_count)
      | Inl e \<Rightarrow> Inl e)"

definition average_of :: "int \<Rightarrow> int \<Rightarrow> py_error + rat option" where
  "average_of total_age total_count =
     (if total_count = 0 then Inr None
      else (case py_truediv total_age total_count of
              Inr average_age \<Rightarrow> Inr (Some average_age)
            | Inl e \<Rightarrow> Inl e))"

definition calculate_average_age :: "int \<Rightarrow> db \<Rightarrow> (py_error + rat option) \<times> db" where
  "calculate_average_age batch_size d =
     (case read_all_patients d of
        (patients, d') \<Rightarrow>
          if patients = [] then (Inr None, d')
          else (case py_range 0 (int (length patients)) batch_size of
                  Inl e \<Rightarrow> (Inl e, d')
                | Inr starts \<Rightarrow>
                    (case join_results
                            (map (\<lambda>i. calculate_batch_average_age (slice patients i (i + batch_size)))
                               starts) 0 0 of
                       Inl e \<Rightarrow> (Inl e, d')
                     | Inr (total_age, total_count) \<Rightarrow> (average_of total_age total_count, d'))))"

text \<open>\<^verbatim>\<open>calculate_average_ages\<close>: the same loop over all patients in one pass.\<close>

fun ages_loop :: "Patient list \<Rightarrow> int \<Rightarrow> int \<Rightarrow> py_error + int \<times> int" where
  "ages_loop [] total_age valid_count = Inr (total_age, valid_count)"
| "ages_loop (patient # rest) total_age valid_count =
     (case py_int (age patient) of
        Inr a \<Rightarrow> ages_loop rest (total_age + a) (valid_count + 1)
      | Inl e \<Rightarrow>
          (if e = ValueError \<or> e = TypeError then ages_loop rest total_age valid_count
           else Inl e))"

definition calculate_average_ages :: "db \<Rightarrow> (py_error + rat option) \<times> db" where
  "calculate_average_ages d =
     (case read_all_patients d of
        (patients, d') \<Rightarrow>
          if patients = [] then (Inr None, d')
          else (case ages_loop patients 0 0 of
                  Inl e \<Rightarrow> (Inl e, d')
                | Inr (total_age, valid_count) \<Rightarrow> (average_of total_age valid_count, d')))"

section \<open>The average-age endpoint (\<^verbatim>\<open>crud_operations.py\<close>)\<close>





section \<open>Vocabulary of the claims\<close>

text \<open>An age parses when \<^verbatim>\<open>int(age)\<close> returns; the parsed ages of a record list, in order.\<close>

definition parses :: "py_str option \<Rightarrow> bool" where
  "parses a = (case py_int a of Inr _ \<Rightarrow> True | Inl _ \<Rightarrow> False)"

definition parsed_ages :: "Patient list \<Rightarrow> int list" where
  "parsed_ages ps =
     map (\<lambda>p. case py_int (age p) of Inr v \<Rightarrow> v | Inl _ \<Rightarrow> 0) (filter (\<lambda>p. parses (age p)) ps)"

text \<open>The records that the table holds, as \<^verbatim>\<open>Patient\<close> objects.\<close>

definition stored :: "db \<Rightarrow> Patient list" where
  "stored d = map Patient_of_row (patients_table d)"

text \<open>
  The exception that the storage engine raises during the next connection, if any, and
  the state once that connection is over when its statement changes nothing.
\<close>

definition next_fault :: "db \<Rightarrow> py_error option" where
  "next_fault d = (case faults d of Some e # _ \<Rightarrow> Some e | _ \<Rightarrow> None)"

definition after_connection :: "db \<Rightarrow> db" where
  "after_connection d = d\<lparr>faults := tl (faults d)\<rparr>"

text \<open>The database of \<^verbatim>\<open>test_calculate_average_age\<close> in \<^verbatim>\<open>test_hms_app.py\<close>.\<close>

definition test_db :: db where
  "test_db =
     \<lparr>patients_table =
        [(1, (ascii ''John Doe''), (ascii ''45''), (ascii ''Hypertension'')),
         (2, (ascii ''Jane Smith''), (ascii ''32''), (ascii ''Diabetes'')),
         (3, (ascii ''Alice Johnson''), (ascii ''60''), (ascii ''Arthritis'')),
         (4, (ascii ''Invalid Age''), (ascii ''invalid''), (ascii ''Asthma''))],
      sqlite_sequence = 4, faults = []\<rparr>"

definition no_age_db :: db where
  "no_age_db =
     \<lparr>patients_table = [(1, (ascii ''A''), (ascii ''invalid''), (ascii ''Asthma'')), (2, (ascii ''B''), (ascii ''4.5''), (ascii ''Flu''))],
      sqlite_sequence = 2, faults = []\<rparr>"

text \<open>
  The identifiers in the table.  A table that SQLite maintains has distinct identifiers
  (\<^verbatim>\<open>PRIMARY KEY\<close>), each a 64-bit integer, and a sequence that is not negative.
\<close>

definition ids :: "db \<Rightarrow> int list" where
  "ids d = map fst (patients_table d)"

definition well_formed :: "db \<Rightarrow> bool" where
  "well_formed d \<longleftrightarrow> distinct (ids d) \<and> list_all in_int64 (ids d) \<and> 0 \<le> sqlite_sequence d"

text \<open>
  A sequence of \<^verbatim>\<open>create_patient\<close> calls, one per patient and in order, as the loop of
  \<^verbatim>\<open>seed_data\<close> makes them; the identifiers that the calls return are kept.
\<close>

fun create_each :: "Patient list \<Rightarrow> db \<Rightarrow> int option list \<times> db" where
  "create_each [] d = ([], d)"
| "create_each (patient # rest) d =
     (case create_patient patient d of
        (i, d') \<Rightarrow> (case create_each rest d' of (is, d'') \<Rightarrow> (i # is, d'')))"

definition empty_db :: db where
  "empty_db = \<lparr>patients_table = [], sqlite_sequence = 0, faults = []\<rparr>"

definition failing_db :: db where
  "failing_db = test_db\<lparr>faults := [Some OperationalError]\<rparr>"

definition two_patients :: "Patient list" where
  "two_patients =
     [\<lparr>id' = None, name = Some (ascii ''John Doe''), age = Some (ascii ''45''), disease = Some (ascii ''Hypertension'')\<rparr>,
      \<lparr>id' = Some 7, name = Some (ascii ''Jane Smith''), age = Some (ascii ''32''), disease = Some (ascii ''Diabetes'')\<rparr>]"

text \<open>A table whose only record has an age of 309 digits: 2 followed by 308 zeros.\<close>

definition huge_age :: py_str where
  "huge_age = of_char (CHR ''2'') # replicate 308 (of_char (CHR ''0''))"

definition huge_age_db :: db where
  "huge_age_db =
     \<lparr>patients_table = [(1, (ascii ''Old Tom''), huge_age, (ascii ''Gout''))], sqlite_sequence = 1, faults = []\<rparr>"


section \<open>Parsing and the two loops\<close>

lemma if_Inl_eq: "(if c then Inr x else Inl y) = Inl e \<Longrightarrow> e = y"
  by (cases c) simp_all

lemma py_int_str_error: "py_int_str s = Inl e \<Longrightarrow> e = ValueError"
  unfolding py_int_str_def Let_def by (rule if_Inl_eq)

lemma py_int_error: "py_int a = Inl e \<Longrightarrow> e = ValueError \<or> e = TypeError"
  by (cases a) (auto simp: py_int_def dest: py_int_str_error)

lemma parsed_ages_Nil [simp]: "parsed_ages [] = []"
  by (simp add: parsed_ages_def)

lemma parsed_ages_Cons:
  "parsed_ages (p # ps) =
     (case py_int (age p) of Inr v \<Rightarrow> v # parsed_ages ps | Inl _ \<Rightarrow> parsed_ages ps)"
  by (simp add: parsed_ages_def parses_def split: sum.splits)

lemma parsed_ages_append [simp]: "parsed_ages (ps @ qs) = parsed_ages ps @ parsed_ages qs"
  by (simp add: parsed_ages_def)

lemma length_parsed_ages: "length (parsed_ages ps) \<le> length ps"
  by (simp add: parsed_ages_def)

lemma batch_loop_eq:
  "batch_loop ps t c = Inr (t + sum_list (parsed_ages ps), c + int (length (parsed_ages ps)))"
proof (induction ps arbitrary: t c)
  case Nil
  show ?case by simp
next
  case (Cons p ps)
  show ?case
  proof (cases "py_int (age p)")
    case (Inl e)
    then have "e = ValueError \<or> e = TypeError" by (rule py_int_error)
    with Inl Cons show ?thesis by (auto simp: parsed_ages_Cons)
  next
    case (Inr v)
    with Cons show ?thesis by (simp add: parsed_ages_Cons)
  qed
qed

lemma ages_loop_eq:
  "ages_loop ps t c = Inr (t + sum_list (parsed_ages ps), c + int (length (parsed_ages ps)))"
proof (induction ps arbitrary: t c)
  case Nil
  show ?case by simp
next
  case (Cons p ps)
  show ?case
  proof (cases "py_int (age p)")
    case (Inl e)
    then have "e = ValueError \<or> e = TypeError" by (rule py_int_error)
    with Inl Cons show ?thesis by (auto simp: parsed_ages_Cons)
  next
    case (Inr v)
    with Cons show ?thesis by (simp add: parsed_ages_Cons)
  qed
qed

lemma join_results_batches:
  "join_results (map calculate_batch_average_age bs) t c =
     Inr (t + sum_list (parsed_ages (concat bs)), c + int (length (parsed_ages (concat bs))))"
  by (induction bs arbitrary: t c) (simp_all add: calculate_batch_average_age_def batch_loop_eq)

lemma py_range_pos:
  "0 < b \<Longrightarrow> py_range 0 (int n) b = Inr (map (\<lambda>k. int k * b) [0..<nat ((int n + b - 1) div b)])"
  by (simp add: py_range_def)

lemma slice_nonneg:
  "0 \<le> i \<Longrightarrow> 0 \<le> j \<Longrightarrow> slice xs i j = take (nat j - nat i) (drop (nat i) xs)"
  by (simp add: slice_def slice_index_def drop_take min_def)

lemma slice_batch:
  assumes "0 < b"
  shows "slice xs (int k * b) (int k * b + b) = take (nat b) (drop (k * nat b) xs)"
proof -
  have i: "nat (int k * b) = k * nat b"
    using assms by (simp add: nat_mult_distrib)
  have j: "nat (int k * b + b) = k * nat b + nat b"
    using assms i by (simp add: nat_add_distrib)
  show ?thesis
    using assms by (simp add: slice_nonneg i j)
qed

lemma concat_batches:
  "concat (map (\<lambda>k. take b (drop (k * b) xs)) [0..<m]) = take (m * b) xs"
proof (induction m)
  case 0
  show ?case by simp
next
  case (Suc m)
  have "take (Suc m * b) xs = take (m * b + b) xs"
    by (simp add: add.commute)
  also have "\<dots> = take (m * b) xs @ take b (drop (m * b) xs)"
    by (rule take_add)
  finally show ?case
    using Suc by simp
qed

lemma batches_cover:
  assumes "0 < b"
  shows "concat (map (\<lambda>i. slice xs i (i + b)) (map (\<lambda>k. int k * b) [0..<nat ((int (length xs) + b - 1) div b)])) = xs"
proof -
  let ?m = "nat ((int (length xs) + b - 1) div b)"
  have "int (length xs) \<le> ((int (length xs) + b - 1) div b) * b"
  proof -
    have "(int (length xs) + b - 1) mod b \<le> b - 1"
      using assms pos_mod_bound [of b "int (length xs) + b - 1"] by linarith
    moreover have "((int (length xs) + b - 1) div b) * b + (int (length xs) + b - 1) mod b = int (length xs) + b - 1"
      by simp
    ultimately show ?thesis by linarith
  qed
  moreover have "0 \<le> (int (length xs) + b - 1) div b"
    using assms by (simp add: pos_imp_zdiv_nonneg_iff)
  ultimately have "int (length xs) \<le> int (?m * nat b)"
    using assms by simp
  then have len: "length xs \<le> ?m * nat b" by linarith
  have "concat (map (\<lambda>i. slice xs i (i + b)) (map (\<lambda>k. int k * b) [0..<?m]))
      = concat (map (\<lambda>k. take (nat b) (drop (k * nat b) xs)) [0..<?m])"
    using assms by (simp add: comp_def slice_batch)
  also have "\<dots> = take (?m * nat b) xs"
    by (rule concat_batches)
  also have "\<dots> = xs"
    using len by simp
  finally show ?thesis .
qed


lemma parsed_ages_empty_iff: "parsed_ages ps = [] \<longleftrightarrow> (\<forall>p \<in> set ps. \<not> parses (age p))"
  by (simp add: parsed_ages_def filter_empty_conv)

section \<open>Connections and reads\<close>

lemma after_connection_no_faults: "faults d = [] \<Longrightarrow> after_connection d = d"
proof -
  assume "faults d = []"
  moreover have "d\<lparr>faults := faults d\<rparr> = d" by simp
  ultimately show ?thesis by (simp add: after_connection_def)
qed

lemma execute_eq:
  "execute stmt d =
     (case next_fault d of
        Some e \<Rightarrow> (Inl e, after_connection d)
      | None \<Rightarrow> run stmt (after_connection d))"
proof (cases "faults d")
  case Nil
  then show ?thesis
    by (simp add: execute_def next_fault_def after_connection_no_faults)
next
  case (Cons f later)
  then show ?thesis
    by (cases f) (simp_all add: execute_def next_fault_def after_connection_def)
qed

lemma patients_table_after_connection [simp]:
  "patients_table (after_connection d) = patients_table d"
  by (simp add: after_connection_def)

lemma sqlite_sequence_after_connection [simp]:
  "sqlite_sequence (after_connection d) = sqlite_sequence d"
  by (simp add: after_connection_def)

lemma read_all_patients_eq:
  "read_all_patients d =
     (if next_fault d = None then stored d else [], after_connection d)"
  by (simp add: read_all_patients_def execute_eq stored_def split: option.splits)

section \<open>The aggregation in closed form\<close>

lemma average_of_no_ages [simp]: "average_of t 0 = Inr None"
  by (simp add: average_of_def)

lemma calculate_average_age_eq:
  assumes "1 \<le> batch_size"
  shows "calculate_average_age batch_size d =
           (average_of (sum_list (parsed_ages (fst (read_all_patients d))))
              (int (length (parsed_ages (fst (read_all_patients d))))),
            snd (read_all_patients d))"
proof (cases "read_all_patients d")
  case (Pair ps d')
  have b: "0 < batch_size" using assms by simp
  show ?thesis
  proof (cases "ps = []")
    case True
    with Pair show ?thesis by (simp add: calculate_average_age_def)
  next
    case False
    let ?starts = "map (\<lambda>k. int k * batch_size) [0..<nat ((int (length ps) + batch_size - 1) div batch_size)]"
    have "join_results
            (map (\<lambda>i. calculate_batch_average_age (slice ps i (i + batch_size))) ?starts) 0 0
          = join_results
              (map calculate_batch_average_age (map (\<lambda>i. slice ps i (i + batch_size)) ?starts)) 0 0"
      by (simp add: comp_def)
    also have "\<dots> = Inr (sum_list (parsed_ages ps), int (length (parsed_ages ps)))"
      by (simp only: join_results_batches batches_cover [OF b]) simp
    finally show ?thesis
      using Pair False b by (simp add: calculate_average_age_def py_range_pos)
  qed
qed

lemma calculate_average_ages_eq:
  "calculate_average_ages d =
     (average_of (sum_list (parsed_ages (fst (read_all_patients d))))
        (int (length (parsed_ages (fst (read_all_patients d))))),
      snd (read_all_patients d))"
  by (cases "read_all_patients d") (simp add: calculate_average_ages_def ages_loop_eq)

section \<open>Evaluating the model on literals\<close>

lemma bit_length_0: "bit_length 0 = 0"
  by (simp add: bit_length.simps)

lemma bit_length_1: "bit_length 1 = 1"
  by (simp add: bit_length.simps)

lemma bit_length_numeral: "bit_length (numeral k) = Suc (bit_length (numeral k div 2))"
  by (subst bit_length.simps) simp

lemmas float_eval =
  bit_length_0 bit_length_1 bit_length_numeral floor_log2_def nearest_binary64_def
  round_half_even_def pow2_def py_truediv_def Let_def

lemmas int_eval =
  py_int_def py_int_str_def TransformDecimalAndSpaceToASCII_def ascii_def valid_digits_def
  digits_to_int_def Py_ISSPACE_def is_digit_def digit_value_def underscore_def
  max_str_digits_def Let_def

lemma py_truediv_137_3: "py_truediv 137 3 = Inr (6427011968226645 / 140737488355328)"
  by (simp add: float_eval)

lemma py_int_test_ages:
  "py_int (Some (ascii ''45'')) = Inr 45" "py_int (Some (ascii ''32'')) = Inr 32"
  "py_int (Some (ascii ''60'')) = Inr 60" "py_int (Some (ascii ''invalid'')) = Inl ValueError"
  "py_int (Some (ascii ''4.5'')) = Inl ValueError" "py_int None = Inl TypeError"
  by (simp_all add: int_eval)

lemma stored_test_db:
  "stored test_db =
     [\<lparr>id' = Some 1, name = Some (ascii ''John Doe''), age = Some (ascii ''45''), disease = Some (ascii ''Hypertension'')\<rparr>,
      \<lparr>id' = Some 2, name = Some (ascii ''Jane Smith''), age = Some (ascii ''32''), disease = Some (ascii ''Diabetes'')\<rparr>,
      \<lparr>id' = Some 3, name = Some (ascii ''Alice Johnson''), age = Some (ascii ''60''), disease = Some (ascii ''Arthritis'')\<rparr>,
      \<lparr>id' = Some 4, name = Some (ascii ''Invalid Age''), age = Some (ascii ''invalid''), disease = Some (ascii ''Asthma'')\<rparr>]"
  by (simp add: stored_def test_db_def Patient_of_row_def)

lemma parsed_ages_test_db: "parsed_ages (stored test_db) = [45, 32, 60]"
  by (simp add: stored_test_db parsed_ages_def parses_def py_int_test_ages)

lemma calculate_average_ages_test_db:
  "calculate_average_ages test_db = (Inr (Some (6427011968226645 / 140737488355328)), test_db)"
proof -
  have f: "next_fault test_db = None" "after_connection test_db = test_db"
    by (simp_all add: next_fault_def after_connection_def test_db_def)
  show ?thesis
    by (simp add: calculate_average_ages_eq read_all_patients_eq f parsed_ages_test_db
        average_of_def py_truediv_137_3)
qed

section \<open>The statements on the table\<close>

lemma ids_after_connection [simp]: "ids (after_connection d) = ids d"
  by (simp add: ids_def)

lemma largest_rowid_after_connection [simp]:
  "largest_rowid (after_connection d) = largest_rowid d"
  by (simp add: largest_rowid_def)

lemma foldr_max_ge_start: "s \<le> foldr max xs (s::int)"
  by (induction xs) auto

lemma foldr_max_ge_elem: "x \<in> set xs \<Longrightarrow> x \<le> foldr max xs (s::int)"
  by (induction xs) (auto simp: max_def intro: order_trans [OF _ foldr_max_ge_start])

lemma foldr_max_absorb: "\<forall>x \<in> set xs. x \<le> s \<Longrightarrow> foldr max xs (s::int) = s"
  by (induction xs) auto

lemma largest_rowid_ge_id: "i \<in> set (ids d) \<Longrightarrow> i \<le> largest_rowid d"
  by (simp add: ids_def largest_rowid_def foldr_max_ge_elem)

lemma largest_rowid_ge_sequence: "sqlite_sequence d \<le> largest_rowid d"
  by (simp add: largest_rowid_def foldr_max_ge_start)

text \<open>A successful \<^verbatim>\<open>create_patient\<close>: what it needs and what it does.\<close>

lemma create_patient_Some:
  assumes "create_patient p d = (Some i, d')"
  shows "\<exists>n a ds. name p = Some n \<and> age p = Some a \<and> disease p = Some ds
           \<and> next_fault d = None
           \<and> i = largest_rowid d + 1 \<and> i \<le> 2 ^ 63 - 1
           \<and> d' = (after_connection d)
                    \<lparr>patients_table := patients_table d @ [(i, n, a, ds)], sqlite_sequence := i\<rparr>"
  using assms
  by (auto simp: create_patient_def execute_eq Let_def
      split: option.splits prod.splits sum.splits if_splits)

lemma largest_rowid_after_insert:
  assumes "i = largest_rowid d + 1"
  shows "largest_rowid ((after_connection d)
           \<lparr>patients_table := patients_table d @ [(i, n, a, ds)], sqlite_sequence := i\<rparr>) = i"
proof -
  have "\<forall>x \<in> set (map fst (patients_table d)). x \<le> i"
    using assms largest_rowid_ge_id [of _ d] by (fastforce simp: ids_def)
  then show ?thesis
    by (simp add: largest_rowid_def foldr_max_absorb)
qed

lemma create_each_rows:
  assumes "create_each ps d = (new_ids, d')" and "\<forall>i \<in> set new_ids. i \<noteq> None"
  shows "new_ids = map (\<lambda>k. Some (largest_rowid d + 1 + int k)) [0..<length ps]
       \<and> map Patient_of_row (patients_table d')
           = map Patient_of_row (patients_table d) @ map2 (\<lambda>i p. p\<lparr>id' := i\<rparr>) new_ids ps"
  using assms
proof (induction ps arbitrary: d new_ids d')
  case Nil
  then show ?case by simp
next
  case (Cons p ps)
  obtain i d1 where c: "create_patient p d = (i, d1)"
    by (cases "create_patient p d")
  obtain rest d2 where r: "create_each ps d1 = (rest, d2)"
    by (cases "create_each ps d1")
  from Cons.prems c r have eq: "new_ids = i # rest" "d' = d2"
    by simp_all
  with Cons.prems obtain j where j: "i = Some j" and rest_ok: "\<forall>i \<in> set rest. i \<noteq> None"
    by auto
  from create_patient_Some [OF c [unfolded j]]
  obtain n a ds where p: "name p = Some n" "age p = Some a" "disease p = Some ds"
    and jv: "j = largest_rowid d + 1"
    and d1: "d1 = (after_connection d)
               \<lparr>patients_table := patients_table d @ [(j, n, a, ds)], sqlite_sequence := j\<rparr>"
    by blast
  have l1: "largest_rowid d1 = j"
    unfolding d1 by (rule largest_rowid_after_insert [OF jv])
  have t1: "patients_table d1 = patients_table d @ [(j, n, a, ds)]"
    by (simp add: d1)
  have row: "Patient_of_row (j, n, a, ds) = p\<lparr>id' := Some j\<rparr>"
    by (simp add: Patient_of_row_def p)
  from Cons.IH [OF r rest_ok]
  have ih: "rest = map (\<lambda>k. Some (largest_rowid d1 + 1 + int k)) [0..<length ps]"
    "map Patient_of_row (patients_table d2)
       = map Patient_of_row (patients_table d1) @ map2 (\<lambda>i p. p\<lparr>id' := i\<rparr>) rest ps"
    by simp_all
  have "map (\<lambda>k. Some (largest_rowid d + 1 + int k)) [0..<length (p # ps)]
      = Some j # map (\<lambda>k. Some (j + 1 + int k)) [0..<length ps]"
    by (simp add: upt_rec [of 0] map_Suc_upt [symmetric] jv del: upt_Suc)
  with ih(1) l1 have ids_eq: "new_ids = map (\<lambda>k. Some (largest_rowid d + 1 + int k)) [0..<length (p # ps)]"
    by (simp add: eq j)
  from ih(2) have "map Patient_of_row (patients_table d')
      = map Patient_of_row (patients_table d) @ map2 (\<lambda>i p. p\<lparr>id' := i\<rparr>) new_ids (p # ps)"
    by (simp add: eq j t1 row)
  with ids_eq show ?case by simp
qed

lemma distinct_upward_ids: "distinct (map (\<lambda>k. Some (s + 1 + int k)) [0..<n])"
  by (simp add: distinct_map inj_on_def)

text \<open>Updates and deletions.\<close>

lemma update_patient_absent:
  assumes "\<forall>r \<in> set (patients_table d). Some (fst r) \<noteq> id' p"
  shows "update_patient p d = (0, after_connection d)"
proof (cases "id' p")
  case None
  then show ?thesis
    by (simp add: update_patient_def execute_eq split: option.splits)
next
  case (Some i)
  with assms have "filter (\<lambda>r. fst r = i) (patients_table d) = []"
    by (auto simp: filter_empty_conv)
  with Some show ?thesis
    by (simp add: update_patient_def execute_eq split: option.splits)
qed

lemma update_patient_ids: "ids (snd (update_patient p d)) = ids d"
proof -
  have "map fst (map (\<lambda>r. if fst r = i then (i, n, a, ds) else r) rows) = map fst rows"
    for i :: int and n a ds :: py_str and rows :: "row list"
    by (induction rows) auto
  then show ?thesis
    by (cases "id' p")
      (auto simp: update_patient_def execute_eq ids_def
        split: option.splits prod.splits sum.splits if_splits)
qed

lemma delete_patient_ok:
  assumes "next_fault d = None" and "in_int64 i"
  shows "delete_patient i d =
           (int (length (filter (\<lambda>r. fst r = i) (patients_table d))),
            (after_connection d)\<lparr>patients_table := filter (\<lambda>r. fst r \<noteq> i) (patients_table d)\<rparr>)"
  using assms by (simp add: delete_patient_def execute_eq)

lemma delete_patient_absent:
  assumes "i \<notin> set (ids d)"
  shows "fst (delete_patient i d) = 0"
proof -
  have "filter (\<lambda>r. fst r = i) (patients_table d) = []"
    using assms by (auto simp: filter_empty_conv ids_def)
  then show ?thesis
    by (simp add: delete_patient_def execute_eq split: option.splits)
qed

lemma read_patient_by_id_absent:
  assumes "i \<notin> set (ids d)"
  shows "fst (read_patient_by_id i d) = None"
proof -
  have "filter (\<lambda>r. fst r = i) (patients_table d) = []"
    using assms by (auto simp: filter_empty_conv ids_def)
  then show ?thesis
    by (simp add: read_patient_by_id_def execute_eq split: option.splits)
qed

lemma count_distinct_id:
  "distinct (map fst rows) \<Longrightarrow> i \<in> fst ` set rows \<Longrightarrow> length (filter (\<lambda>r. fst r = i) rows) = 1"
proof (induction rows)
  case Nil
  then show ?case by simp
next
  case (Cons r rows)
  show ?case
  proof (cases "fst r = i")
    case True
    from Cons.prems have "fst r \<notin> fst ` set rows"
      by simp
    with True have "\<forall>x \<in> set rows. fst x \<noteq> i"
      by (metis imageI)
    then have "filter (\<lambda>r. fst r = i) rows = []"
      by (simp add: filter_empty_conv)
    with True show ?thesis by simp
  next
    case False
    with Cons show ?thesis by auto
  qed
qed

lemma operations_on_failure:
  assumes "next_fault d = Some e"
  shows "update_patient p d = (0, after_connection d)"
    and "delete_patient i d = (0, after_connection d)"
    and "read_patient_by_id i d = (None, after_connection d)"
    and "create_patient p d = (None, after_connection d)"
    and "read_all_patients d = ([], after_connection d)"
  using assms
  by (simp_all add: update_patient_def delete_patient_def read_patient_by_id_def
      create_patient_def read_all_patients_def execute_eq)

text \<open>Every operation keeps a well-formed table well formed; the empty table is one.\<close>

lemma well_formed_empty: "well_formed empty_db"
  by (simp add: well_formed_def empty_db_def ids_def)

lemma well_formed_after_connection [simp]: "well_formed (after_connection d) = well_formed d"
  by (simp add: well_formed_def)

lemma well_formed_create:
  assumes "well_formed d"
  shows "well_formed (snd (create_patient p d))"
proof (cases "create_patient p d")
  case (Pair r d')
  show ?thesis
  proof (cases r)
    case None
    with Pair have "d' = after_connection d"
      by (auto simp: create_patient_def execute_eq Let_def
          split: option.splits prod.splits sum.splits if_splits)
    with Pair assms show ?thesis by simp
  next
    case (Some i)
    from create_patient_Some [OF Pair [unfolded Some]]
    obtain n a ds where i: "i = largest_rowid d + 1" "i \<le> 2 ^ 63 - 1"
      and d': "d' = (after_connection d)
                 \<lparr>patients_table := patients_table d @ [(i, n, a, ds)], sqlite_sequence := i\<rparr>"
      by blast
    have fresh: "i \<notin> set (ids d)"
      using largest_rowid_ge_id [of i d] i(1) by auto
    have "0 \<le> largest_rowid d"
      using assms largest_rowid_ge_sequence [of d] by (simp add: well_formed_def)
    with i have "in_int64 i" "0 \<le> i"
      by (simp_all add: in_int64_def)
    with assms fresh have "well_formed d'"
      by (simp add: d' well_formed_def ids_def)
    with Pair show ?thesis by simp
  qed
qed

lemma well_formed_update:
  assumes "well_formed d"
  shows "well_formed (snd (update_patient p d))"
proof -
  have "sqlite_sequence (snd (update_patient p d)) = sqlite_sequence d"
    by (cases "id' p")
      (auto simp: update_patient_def execute_eq
        split: option.splits prod.splits sum.splits if_splits)
  with assms show ?thesis
    by (simp add: well_formed_def update_patient_ids)
qed

lemma well_formed_delete:
  assumes "well_formed d"
  shows "well_formed (snd (delete_patient i d))"
proof -
  have "well_formed ((after_connection d)\<lparr>patients_table := filter (\<lambda>r. fst r \<noteq> i) (patients_table d)\<rparr>)"
    using assms
    by (auto simp: well_formed_def ids_def distinct_map_filter list_all_iff)
  with assms show ?thesis
    by (auto simp: delete_patient_def execute_eq split: option.splits)
qed

lemma read_patient_by_id_db: "snd (read_patient_by_id i d) = after_connection d"
  by (simp add: read_patient_by_id_def execute_eq split: option.splits list.splits)

section \<open>The endpoint in closed form\<close>





lemma py_round_test_average:
  "py_round (6427011968226645 / 140737488355328) 2 = 3213740546593915 / 70368744177664"
  by code_simp


section \<open>Rounding to binary64: when \<^verbatim>\<open>/\<close> overflows\<close>

text \<open>
  \<open>floor_log2\<close> is the binary exponent of a positive quotient, \<open>round_half_even\<close> rounds to
  the nearest integer, and so \<^verbatim>\<open>a / b\<close> raises \<open>OverflowError\<close> exactly when the quotient is,
  in magnitude, at least \<open>2 ^ 1024 - 2 ^ 970\<close>: half a unit in the last place below
  \<open>2 ^ 1024\<close>.
\<close>

lemma pow2_powi: "pow2 e = 2 powi e"
  by (simp add: pow2_def power_int_def inverse_eq_divide power_one_over)

lemma powi_neg: "\<not> 0 \<le> k \<Longrightarrow> (2::rat) powi k = 1 / 2 ^ nat (- k)"
  by (simp add: power_int_def inverse_eq_divide power_one_over)

lemma bit_length_pos: "0 < n \<Longrightarrow> bit_length n = Suc (bit_length (n div 2))"
  by (subst bit_length.simps) simp

lemma bit_length_bounds: "0 < n \<Longrightarrow> 2 ^ (bit_length n - 1) \<le> n \<and> n < 2 ^ bit_length n"
proof (induction n rule: bit_length.induct)
  case (1 n)
  show ?case
  proof (cases "n = 1")
    case True
    then show ?thesis
      by (simp add: bit_length.simps [of 1] bit_length.simps [of 0])
  next
    case False
    with "1.prems" have h: "0 < n div 2" by simp
    with "1.IH" "1.prems" have ih: "2 ^ (bit_length (n div 2) - 1) \<le> n div 2"
      "n div 2 < 2 ^ bit_length (n div 2)"
      by simp_all
    obtain k where k: "bit_length (n div 2) = Suc k"
      using bit_length_pos [OF h] by simp
    have bl: "bit_length n = Suc (Suc k)"
      using bit_length_pos [OF "1.prems"] k by simp
    have "2 * 2 ^ k \<le> 2 * (n div 2)"
      using ih(1) k by simp
    also have "\<dots> \<le> n" by simp
    finally have lo: "2 ^ (bit_length n - 1) \<le> n"
      by (simp add: bl)
    have "n div 2 + 1 \<le> 2 ^ Suc k"
      using ih(2) k by simp
    then have "2 * (n div 2) + 2 \<le> 2 ^ Suc (Suc k)"
      by simp
    moreover have "n < 2 * (n div 2) + 2"
      by linarith
    ultimately have "n < 2 ^ bit_length n"
      by (simp add: bl)
    with lo show ?thesis by simp
  qed
qed

lemma floor_log2_test_iff:
  assumes "0 < d"
  shows "d * 2 ^ nat k \<le> n * 2 ^ nat (- k) \<longleftrightarrow> (2::rat) powi k \<le> of_int n / of_int d"
proof -
  have dp: "(0::rat) < of_int d" using assms by simp
  show ?thesis
  proof (cases "0 \<le> k")
    case True
    have "(2::rat) powi k \<le> of_int n / of_int d \<longleftrightarrow> (2::rat) ^ nat k * of_int d \<le> of_int n"
      using True by (simp add: power_int_def pos_le_divide_eq [OF dp])
    also have "(2::rat) ^ nat k * of_int d = of_int (d * 2 ^ nat k)"
      by simp
    also have "(of_int (d * 2 ^ nat k) :: rat) \<le> of_int n \<longleftrightarrow> d * 2 ^ nat k \<le> n"
      by (rule of_int_le_iff)
    finally show ?thesis
      using True by simp
  next
    case False
    have p: "(0::rat) < 2 ^ nat (- k)" by simp
    have "(2::rat) powi k \<le> of_int n / of_int d \<longleftrightarrow> 1 / 2 ^ nat (- k) * of_int d \<le> (of_int n :: rat)"
      by (simp only: powi_neg [OF False] pos_le_divide_eq [OF dp])
    also have "\<dots> \<longleftrightarrow> of_int d / 2 ^ nat (- k) \<le> (of_int n :: rat)"
      by simp
    also have "\<dots> \<longleftrightarrow> (of_int d :: rat) \<le> of_int n * 2 ^ nat (- k)"
      by (rule pos_divide_le_eq [OF p])
    also have "of_int n * 2 ^ nat (- k) = (of_int (n * 2 ^ nat (- k)) :: rat)"
      by simp
    also have "(of_int d :: rat) \<le> of_int (n * 2 ^ nat (- k)) \<longleftrightarrow> d \<le> n * 2 ^ nat (- k)"
      by (rule of_int_le_iff)
    finally show ?thesis
      using False by simp
  qed
qed


lemma of_int_bit_length:
  assumes "0 < n"
  shows "(2::rat) powi (int (bit_length n) - 1) \<le> of_int n"
    and "(of_int n :: rat) < 2 powi int (bit_length n)"
proof -
  obtain k where k: "bit_length n = Suc k"
    using bit_length_pos [OF assms] by simp
  have e: "int (bit_length n) - 1 = int k"
    by (simp add: k)
  have b: "2 ^ k \<le> n" "n < 2 ^ Suc k"
    using bit_length_bounds [OF assms] by (simp_all add: k)
  have "(of_int (2 ^ k) :: rat) \<le> of_int n"
    using b(1) by (simp only: of_int_le_iff)
  then show "(2::rat) powi (int (bit_length n) - 1) \<le> of_int n"
    by (simp only: e power_int_of_nat of_int_power of_int_numeral)
  have "(of_int n :: rat) < of_int (2 ^ Suc k)"
    using b(2) by (simp only: of_int_less_iff)
  then show "(of_int n :: rat) < 2 powi int (bit_length n)"
    by (simp only: k power_int_of_nat of_int_power of_int_numeral)
qed

lemma powi_add: "(2::rat) powi (a + b) = 2 powi a * 2 powi b"
  by (rule power_int_add) simp

lemma floor_log2_bounds:
  assumes "0 < n" and "0 < d"
  shows "(2::rat) powi (floor_log2 n d) \<le> of_int n / of_int d"
    and "of_int n / of_int d < (2::rat) powi (floor_log2 n d + 1)"
proof -
  let ?x = "of_int n / of_int d :: rat"
  let ?k = "int (bit_length n) - int (bit_length d)"
  note n = of_int_bit_length [OF assms(1)]
  note d = of_int_bit_length [OF assms(2)]
  have dpos: "(0::rat) < of_int d" using assms by simp
  have lower: "(2::rat) powi (?k - 1) \<le> ?x"
  proof -
    have "(2::rat) powi (?k - 1) * of_int d \<le> 2 powi (?k - 1) * 2 powi int (bit_length d)"
      using d(2) by (intro mult_left_mono) simp_all
    also have "\<dots> = 2 powi (?k - 1 + int (bit_length d))"
      by (simp only: powi_add)
    also have "?k - 1 + int (bit_length d) = int (bit_length n) - 1"
      by simp
    also have "(2::rat) powi (int (bit_length n) - 1) \<le> of_int n"
      by (rule n(1))
    finally show ?thesis
      by (simp only: pos_le_divide_eq [OF dpos])
  qed
  have upper: "?x < (2::rat) powi (?k + 1)"
  proof -
    have "(of_int n :: rat) < 2 powi int (bit_length n)" by (rule n(2))
    also have "int (bit_length n) = (?k + 1) + (int (bit_length d) - 1)"
      by simp
    also have "(2::rat) powi ((?k + 1) + (int (bit_length d) - 1))
        = 2 powi (?k + 1) * 2 powi (int (bit_length d) - 1)"
      by (rule powi_add)
    also have "\<dots> \<le> 2 powi (?k + 1) * of_int d"
      using d(1) by (intro mult_left_mono) simp_all
    finally show ?thesis
      by (simp only: pos_divide_less_eq [OF dpos])
  qed
  show "(2::rat) powi (floor_log2 n d) \<le> ?x"
  proof (cases "d * 2 ^ nat ?k \<le> n * 2 ^ nat (- ?k)")
    case True
    then have "floor_log2 n d = ?k" by (simp add: floor_log2_def Let_def)
    with True show ?thesis by (simp only: floor_log2_test_iff [OF assms(2)])
  next
    case False
    then have "floor_log2 n d = ?k - 1" by (simp add: floor_log2_def Let_def)
    with lower show ?thesis by simp
  qed
  show "?x < (2::rat) powi (floor_log2 n d + 1)"
  proof (cases "d * 2 ^ nat ?k \<le> n * 2 ^ nat (- ?k)")
    case True
    then have "floor_log2 n d = ?k" by (simp add: floor_log2_def Let_def)
    with upper show ?thesis by simp
  next
    case False
    then have f: "floor_log2 n d = ?k - 1" by (simp add: floor_log2_def Let_def)
    from False floor_log2_test_iff [OF assms(2), of ?k n] have "\<not> (2::rat) powi ?k \<le> ?x"
      by blast
    then have "?x < (2::rat) powi ?k"
      by (rule not_le_imp_less)
    moreover have "floor_log2 n d + 1 = ?k"
      by (simp add: f)
    ultimately show ?thesis by (simp only:)
  qed
qed

lemma round_half_even_cases:
  "(round_half_even n d = n div d \<and> 2 * (n mod d) \<le> d
      \<and> (2 * (n mod d) = d \<longrightarrow> even (n div d)))
   \<or> (round_half_even n d = n div d + 1 \<and> d \<le> 2 * (n mod d)
      \<and> (2 * (n mod d) = d \<longrightarrow> odd (n div d)))"
  by (auto simp: round_half_even_def Let_def)

lemma twice_split:
  fixes n d :: int
  shows "2 * n = 2 * (n div d) * d + 2 * (n mod d)"
proof -
  have "n = (n div d) * d + n mod d" by simp
  then have "2 * n = 2 * ((n div d) * d + n mod d)" by simp
  then show ?thesis by (simp only: distrib_left mult.assoc)
qed

lemma round_half_even_ge:
  assumes "0 < d" and "K * d \<le> n"
  shows "K \<le> round_half_even n d"
proof -
  have "(K * d) div d \<le> n div d"
    using assms by (intro zdiv_mono1)
  then have "K \<le> n div d"
    using assms(1) by simp
  then show ?thesis
    using round_half_even_cases [of n d] by auto
qed

lemma round_half_even_ge_half:
  assumes "0 < d" and "(2 * K - 1) * d \<le> 2 * n" and "even K"
  shows "K \<le> round_half_even n d"
proof (rule ccontr)
  assume "\<not> K \<le> round_half_even n d"
  then have lt: "round_half_even n d \<le> K - 1" by simp
  let ?q = "n div d" and ?r = "n mod d"
  have r: "0 \<le> ?r" "?r < d" using assms(1) by simp_all
  consider (down) "round_half_even n d = ?q" "2 * ?r \<le> d" "2 * ?r = d \<longrightarrow> even ?q"
    | (up) "round_half_even n d = ?q + 1" "d \<le> 2 * ?r" "2 * ?r = d \<longrightarrow> odd ?q"
    using round_half_even_cases [of n d] by blast
  then show False
  proof cases
    case down
    with lt have q: "?q \<le> K - 1" by simp
    then have "2 * ?q + 1 \<le> 2 * K - 1" by simp
    then have "(2 * ?q + 1) * d \<le> (2 * K - 1) * d"
      using assms(1) by (intro mult_right_mono) simp_all
    also have "\<dots> \<le> 2 * n" by (rule assms(2))
    also have "\<dots> = 2 * ?q * d + 2 * ?r" by (rule twice_split)
    finally have "d \<le> 2 * ?r" by (simp add: distrib_right)
    with down(2) have tie: "2 * ?r = d" by simp
    with down(3) have "even ?q" by simp
    have "(2 * K - 1) * d \<le> 2 * ?q * d + d"
      using assms(2) twice_split [of n d] tie by simp
    also have "\<dots> = (2 * ?q + 1) * d" by (simp add: distrib_right)
    finally have "2 * K - 1 \<le> 2 * ?q + 1"
      using assms(1) by (simp only: mult_le_cancel_right)
    with q have "?q = K - 1" by simp
    with \<open>even ?q\<close> assms(3) show False by simp
  next
    case up
    with lt have q: "?q \<le> K - 2" by simp
    then have "2 * ?q + 2 \<le> 2 * K - 2" by simp
    then have "(2 * ?q + 2) * d \<le> (2 * K - 2) * d"
      using assms(1) by (intro mult_right_mono) simp_all
    moreover have "2 * n < (2 * ?q + 2) * d"
      using twice_split [of n d] r(2) by (simp add: distrib_right)
    moreover have "(2 * K - 2) * d \<le> (2 * K - 1) * d"
      using assms(1) by (intro mult_right_mono) simp_all
    ultimately show False using assms(2) by linarith
  qed
qed

lemma round_half_even_le_half:
  assumes "0 < d" and "2 * n < (2 * K - 1) * d"
  shows "round_half_even n d \<le> K - 1"
proof (rule ccontr)
  assume "\<not> round_half_even n d \<le> K - 1"
  then have ge: "K \<le> round_half_even n d" by simp
  let ?q = "n div d" and ?r = "n mod d"
  have r: "0 \<le> ?r" "?r < d" using assms(1) by simp_all
  consider (down) "round_half_even n d = ?q" "2 * ?r \<le> d" "2 * ?r = d \<longrightarrow> even ?q"
    | (up) "round_half_even n d = ?q + 1" "d \<le> 2 * ?r" "2 * ?r = d \<longrightarrow> odd ?q"
    using round_half_even_cases [of n d] by blast
  then show False
  proof cases
    case down
    with ge have "K \<le> ?q" by simp
    then have "2 * K \<le> 2 * ?q" by simp
    then have "(2 * K) * d \<le> (2 * ?q) * d"
      using assms(1) by (intro mult_right_mono) simp_all
    moreover have "(2 * ?q) * d \<le> 2 * n"
      using twice_split [of n d] r(1) by simp
    moreover have "(2 * K - 1) * d \<le> (2 * K) * d"
      using assms(1) by (intro mult_right_mono) simp_all
    ultimately show False using assms(2) by linarith
  next
    case up
    with ge have "K - 1 \<le> ?q" by simp
    then have "2 * K - 1 \<le> 2 * ?q + 1" by simp
    then have "(2 * K - 1) * d \<le> (2 * ?q + 1) * d"
      using assms(1) by (intro mult_right_mono) simp_all
    moreover have "(2 * ?q + 1) * d \<le> 2 * n"
      using twice_split [of n d] up(2) by (simp add: distrib_right)
    ultimately show False using assms(2) by linarith
  qed
qed

lemma scaled_ratio:
  fixes n d s :: int
  assumes "0 < d"
  shows "(of_int (n * 2 ^ nat s) / of_int (d * 2 ^ nat (- s)) :: rat)
           = of_int n / of_int d * 2 powi s"
proof (cases "0 \<le> s")
  case True
  then show ?thesis by (simp add: power_int_def)
next
  case False
  then have "nat s = 0" by simp
  then show ?thesis by (simp add: powi_neg [OF False])
qed

lemma int_of_rat_ge:
  fixes A B K :: int
  assumes "0 < B" and "(of_int K :: rat) \<le> of_int A / of_int B"
  shows "K * B \<le> A"
proof -
  have b: "(0::rat) < of_int B" using assms(1) by simp
  from assms(2) have "(of_int K :: rat) * of_int B \<le> of_int A"
    by (simp only: pos_le_divide_eq [OF b])
  then have "(of_int (K * B) :: rat) \<le> of_int A" by simp
  then show ?thesis by (simp only: of_int_le_iff)
qed

lemma int_of_rat_ge_half:
  fixes A B K :: int
  assumes "0 < B" and "(of_int K :: rat) - 1 / 2 \<le> of_int A / of_int B"
  shows "(2 * K - 1) * B \<le> 2 * A"
proof -
  have b: "(0::rat) < of_int B" using assms(1) by simp
  from assms(2) have "((of_int K :: rat) - 1 / 2) * of_int B \<le> of_int A"
    by (simp only: pos_le_divide_eq [OF b])
  then have "2 * (((of_int K :: rat) - 1 / 2) * of_int B) \<le> 2 * of_int A"
    by simp
  also have "2 * (((of_int K :: rat) - 1 / 2) * of_int B) = of_int ((2 * K - 1) * B)"
    by (simp add: algebra_simps)
  finally have "(of_int ((2 * K - 1) * B) :: rat) \<le> of_int (2 * A)" by simp
  then show ?thesis by (simp only: of_int_le_iff)
qed

lemma int_of_rat_less_half:
  fixes A B K :: int
  assumes "0 < B" and "(of_int A / of_int B :: rat) < of_int K - 1 / 2"
  shows "2 * A < (2 * K - 1) * B"
proof -
  have b: "(0::rat) < of_int B" using assms(1) by simp
  from assms(2) have "(of_int A :: rat) < (of_int K - 1 / 2) * of_int B"
    by (simp only: pos_divide_less_eq [OF b])
  then have "2 * (of_int A :: rat) < 2 * ((of_int K - 1 / 2) * of_int B)"
    by simp
  also have "2 * (((of_int K :: rat) - 1 / 2) * of_int B) = of_int ((2 * K - 1) * B)"
    by (simp add: algebra_simps)
  finally have "(of_int (2 * A) :: rat) < of_int ((2 * K - 1) * B)" by simp
  then show ?thesis by (simp only: of_int_less_iff)
qed

lemma nearest_binary64_pos:
  assumes "0 < n" and "0 < d"
  shows "nearest_binary64 n d =
           of_int (round_half_even (n * 2 ^ nat (52 - max (floor_log2 n d) (- 1022)))
                      (d * 2 ^ nat (- (52 - max (floor_log2 n d) (- 1022)))))
           * 2 powi (max (floor_log2 n d) (- 1022) - 52)"
  using assms by (simp add: nearest_binary64_def Let_def pow2_powi)

lemma rat_ge_of_int_le:
  fixes n d c :: int
  assumes "0 < d" and "c * d \<le> n"
  shows "(of_int c :: rat) \<le> of_int n / of_int d"
proof -
  have b: "(0::rat) < of_int d" using assms(1) by simp
  have "(of_int (c * d) :: rat) \<le> of_int n"
    using assms(2) by (simp only: of_int_le_iff)
  then have "(of_int c :: rat) * of_int d \<le> of_int n" by simp
  then show ?thesis by (simp only: pos_le_divide_eq [OF b])
qed

lemma rat_less_of_int_less:
  fixes n d c :: int
  assumes "0 < d" and "n < c * d"
  shows "(of_int n / of_int d :: rat) < of_int c"
proof -
  have b: "(0::rat) < of_int d" using assms(1) by simp
  have "(of_int n :: rat) < of_int (c * d)"
    using assms(2) by (simp only: of_int_less_iff)
  then have "(of_int n :: rat) < of_int c * of_int d" by simp
  then show ?thesis by (simp only: pos_divide_less_eq [OF b])
qed

lemma nearest_binary64_overflow_pos:
  assumes "0 < n" and "0 < d" and "(2 ^ 1024 - 2 ^ 970) * d \<le> n"
  shows "2 ^ 1024 \<le> nearest_binary64 n d"
proof -
  let ?x = "of_int n / of_int d :: rat"
  let ?e = "floor_log2 n d"
  have x: "(2::rat) ^ 1024 - 2 ^ 970 \<le> ?x"
    using rat_ge_of_int_le [OF assms(2,3)] by simp
  have e: "1023 \<le> ?e"
  proof (rule ccontr)
    assume "\<not> 1023 \<le> ?e"
    then have "?e + 1 \<le> 1023" by simp
    then have "(2::rat) powi (?e + 1) \<le> 2 powi 1023"
      by (intro power_int_increasing) simp_all
    with floor_log2_bounds(2) [OF assms(1,2)] have "?x < 2 powi 1023" by simp
    also have "(2::rat) powi 1023 \<le> 2 ^ 1024 - 2 ^ 970" by simp
    finally show False using x by simp
  qed
  then have m: "max ?e (- 1022) = ?e" by simp
  let ?s = "52 - ?e"
  let ?A = "n * 2 ^ nat ?s" and ?B = "d * 2 ^ nat (- ?s)"
  let ?m = "round_half_even ?A ?B"
  have B: "0 < ?B" using assms(2) by simp
  have ratio: "(of_int ?A / of_int ?B :: rat) = ?x * 2 powi ?s"
    by (rule scaled_ratio [OF assms(2)])
  have r: "nearest_binary64 n d = of_int ?m * 2 powi (?e - 52)"
    using nearest_binary64_pos [OF assms(1,2)] by (simp only: m)
  have p: "(0::rat) < 2 powi ?s" by simp
  show ?thesis
  proof (cases "1024 \<le> ?e")
    case True
    have "(2::rat) powi 52 = 2 powi (?e + ?s)" by simp
    also have "\<dots> = 2 powi ?e * 2 powi ?s" by (rule powi_add)
    also have "\<dots> \<le> ?x * 2 powi ?s"
      using floor_log2_bounds(1) [OF assms(1,2)] p by (intro mult_right_mono) simp_all
    finally have h: "(2::rat) powi 52 \<le> ?x * 2 powi ?s" .
    have c: "(of_int (2 ^ 52) :: rat) = 2 powi 52" by simp
    have "(of_int (2 ^ 52) :: rat) \<le> of_int ?A / of_int ?B"
      using h by (simp only: ratio c)
    from int_of_rat_ge [OF B this] have "2 ^ 52 \<le> ?m"
      by (rule round_half_even_ge [OF B])
    then have "(of_int (2 ^ 52) :: rat) \<le> of_int ?m"
      by (simp only: of_int_le_iff)
    then have a: "(2::rat) powi 52 * 2 powi (?e - 52) \<le> of_int ?m * 2 powi (?e - 52)"
      by (intro mult_right_mono) simp_all
    have "(2::rat) powi 1024 \<le> 2 powi ?e"
      using True by (intro power_int_increasing) simp_all
    also have "?e = 52 + (?e - 52)" by simp
    also have "(2::rat) powi (52 + (?e - 52)) = 2 powi 52 * 2 powi (?e - 52)"
      by (rule powi_add)
    also note a
    finally have "(2::rat) powi 1024 \<le> of_int ?m * 2 powi (?e - 52)" .
    then show ?thesis by (simp add: r)
  next
    case False
    with e have e': "?e = 1023" by simp
    have "(of_int (2 ^ 53) :: rat) - 1 / 2 = (2 ^ 1024 - 2 ^ 970) * 2 powi (- 971)"
      by (simp add: power_int_minus field_simps)
    also have "\<dots> \<le> ?x * 2 powi (- 971)"
      using x by (intro mult_right_mono) simp_all
    finally have h: "(of_int (2 ^ 53) :: rat) - 1 / 2 \<le> ?x * 2 powi (- 971)" .
    have s: "?s = - 971" by (simp add: e')
    have ratio': "(of_int ?A / of_int ?B :: rat) = ?x * 2 powi (- 971)"
      by (simp only: ratio) (simp only: s)
    have "(of_int (2 ^ 53) :: rat) - 1 / 2 \<le> of_int ?A / of_int ?B"
      using h by (simp only: ratio')
    from int_of_rat_ge_half [OF B this] have "2 ^ 53 \<le> ?m"
      by (rule round_half_even_ge_half [OF B]) simp
    then have "(of_int (2 ^ 53) :: rat) \<le> of_int ?m"
      by (simp only: of_int_le_iff)
    then have a: "(of_int (2 ^ 53) :: rat) * 2 powi 971 \<le> of_int ?m * 2 powi 971"
      by (intro mult_right_mono) simp_all
    have "(2::rat) ^ 1024 = of_int (2 ^ 53) * 2 powi 971"
      by simp
    also note a
    finally have "(2::rat) ^ 1024 \<le> of_int ?m * 2 powi 971" .
    moreover have "?e - 52 = 971" by (simp add: e')
    ultimately show ?thesis by (simp only: r)
  qed
qed

lemma nearest_binary64_finite_pos:
  assumes "0 < n" and "0 < d" and "n < (2 ^ 1024 - 2 ^ 970) * d"
  shows "0 \<le> nearest_binary64 n d" and "nearest_binary64 n d < 2 ^ 1024"
proof -
  let ?x = "of_int n / of_int d :: rat"
  let ?f = "floor_log2 n d"
  let ?e = "max ?f (- 1022)"
  let ?s = "52 - ?e"
  let ?A = "n * 2 ^ nat ?s" and ?B = "d * 2 ^ nat (- ?s)"
  let ?m = "round_half_even ?A ?B"
  let ?K = "(2::int) ^ nat (1024 + ?s)"
  have x: "?x < (2::rat) ^ 1024 - 2 ^ 970"
    using rat_less_of_int_less [OF assms(2,3)] by simp
  have f: "?f \<le> 1023"
  proof (rule ccontr)
    assume "\<not> ?f \<le> 1023"
    then have "(2::rat) powi 1024 \<le> 2 powi ?f"
      by (intro power_int_increasing) simp_all
    also have "\<dots> \<le> ?x" by (rule floor_log2_bounds(1) [OF assms(1,2)])
    also note x
    finally show False by simp
  qed
  then have e: "- 1022 \<le> ?e" "?e \<le> 1023" by simp_all
  have B: "0 < ?B" using assms(2) by simp
  have ratio: "(of_int ?A / of_int ?B :: rat) = ?x * 2 powi ?s"
    by (rule scaled_ratio [OF assms(2)])
  have r: "nearest_binary64 n d = of_int ?m * 2 powi (?e - 52)"
    by (rule nearest_binary64_pos [OF assms(1,2)])
  have p: "(0::rat) < 2 powi ?s" by simp
  have K: "(of_int ?K :: rat) = 2 powi (1024 + ?s)"
    using e(2) by (simp add: power_int_def)
  have half: "(1::rat) / 2 \<le> 2 powi (970 + ?s)"
  proof -
    have "(2::rat) powi (- 1) \<le> 2 powi (970 + ?s)"
      using e(2) by (intro power_int_increasing) simp_all
    then show ?thesis by simp
  qed
  have "?x * 2 powi ?s < ((2::rat) ^ 1024 - 2 ^ 970) * 2 powi ?s"
    using x p by (rule mult_strict_right_mono)
  also have "\<dots> = 2 powi 1024 * 2 powi ?s - 2 powi 970 * 2 powi ?s"
    by (simp add: left_diff_distrib)
  also have "\<dots> = 2 powi (1024 + ?s) - 2 powi (970 + ?s)"
    by (simp only: powi_add)
  also have "\<dots> \<le> of_int ?K - 1 / 2"
    using half by (simp only: K)
  finally have "(of_int ?A / of_int ?B :: rat) < of_int ?K - 1 / 2"
    by (simp only: ratio)
  from int_of_rat_less_half [OF B this] have up: "?m \<le> ?K - 1"
    by (rule round_half_even_le_half [OF B])
  have "0 * ?B \<le> ?A" using assms(1) by simp
  then have lo: "0 \<le> ?m"
    by (rule round_half_even_ge [OF B])
  show "0 \<le> nearest_binary64 n d"
    using lo by (simp add: r)
  have "(of_int ?m :: rat) \<le> of_int (?K - 1)"
    using up by (simp only: of_int_le_iff)
  then have "(of_int ?m :: rat) * 2 powi (?e - 52) \<le> of_int (?K - 1) * 2 powi (?e - 52)"
    by (intro mult_right_mono) simp_all
  also have "(of_int (?K - 1) :: rat) = 2 powi (1024 + ?s) - 1"
    by (simp only: of_int_diff K of_int_1)
  also have "(2 powi (1024 + ?s) - 1) * 2 powi (?e - 52)
      = (2::rat) powi (1024 + ?s) * 2 powi (?e - 52) - 2 powi (?e - 52)"
    by (simp add: left_diff_distrib)
  also have "(2::rat) powi (1024 + ?s) * 2 powi (?e - 52) = 2 powi ((1024 + ?s) + (?e - 52))"
    by (rule powi_add [symmetric])
  also have "(1024 + ?s) + (?e - 52) = 1024" by simp
  also have "(2::rat) powi 1024 - 2 powi (?e - 52) < 2 powi 1024"
    by simp
  finally have "(of_int ?m :: rat) * 2 powi (?e - 52) < 2 powi 1024" .
  then show "nearest_binary64 n d < 2 ^ 1024"
    by (simp add: r)
qed

lemma round_half_even_neg:
  assumes "0 < d"
  shows "round_half_even (- n) d = - round_half_even n d"
proof (cases "n mod d = 0")
  case True
  then have "(- n) div d = - (n div d)" "(- n) mod d = 0"
    using assms by (simp_all add: zdiv_zminus1_eq_if zmod_zminus1_eq_if)
  with True assms show ?thesis
    by (simp add: round_half_even_def Let_def)
next
  case False
  then have q: "(- n) div d = - (n div d) - 1" and r: "(- n) mod d = d - n mod d"
    using assms by (simp_all add: zdiv_zminus1_eq_if zmod_zminus1_eq_if)
  have e: "even (- (n div d) - 1) \<longleftrightarrow> odd (n div d)"
    by simp
  show ?thesis
    unfolding round_half_even_def Let_def q r e
    by (cases "2 * (n mod d) < d"; cases "d < 2 * (n mod d)") auto
qed

lemma nearest_binary64_neg:
  assumes "0 < d"
  shows "nearest_binary64 (- n) d = - nearest_binary64 n d"
proof -
  have B: "0 < d * 2 ^ k" for k :: nat
    using assms by simp
  show ?thesis
    by (simp add: nearest_binary64_def Let_def round_half_even_neg [OF B])
qed

lemma nearest_binary64_overflow_iff:
  assumes "0 < d"
  shows "2 ^ 1024 \<le> \<bar>nearest_binary64 n d\<bar> \<longleftrightarrow> (2 ^ 1024 - 2 ^ 970) * d \<le> \<bar>n\<bar>"
proof -
  have pos: "2 ^ 1024 \<le> \<bar>nearest_binary64 k d\<bar> \<longleftrightarrow> (2 ^ 1024 - 2 ^ 970) * d \<le> k"
    if k: "0 < k" for k
  proof (cases "(2 ^ 1024 - 2 ^ 970) * d \<le> k")
    case True
    from nearest_binary64_overflow_pos [OF k assms True] True show ?thesis
      by simp
  next
    case False
    then have "k < (2 ^ 1024 - 2 ^ 970) * d" by simp
    from nearest_binary64_finite_pos [OF k assms this] False show ?thesis
      by simp
  qed
  consider "n = 0" | "0 < n" | "0 < - n" by linarith
  then show ?thesis
  proof cases
    case 1
    then show ?thesis using assms by (simp add: nearest_binary64_def)
  next
    case 2
    with pos [OF 2] show ?thesis by simp
  next
    case 3
    have "\<bar>nearest_binary64 n d\<bar> = \<bar>nearest_binary64 (- n) d\<bar>"
      by (simp add: nearest_binary64_neg [OF assms])
    with pos [OF 3] 3 show ?thesis by simp
  qed
qed

lemma py_truediv_pos:
  assumes "0 < b"
  shows "py_truediv a b =
           (if (2 ^ 1024 - 2 ^ 970) * b \<le> \<bar>a\<bar> then Inl OverflowError
            else Inr (nearest_binary64 a b))"
  using assms nearest_binary64_overflow_iff [OF assms, of a]
  by (simp add: py_truediv_def Let_def)

section \<open>Literals that are all digits\<close>

lemma is_digit_not_space: "is_digit c \<Longrightarrow> \<not> Py_ISSPACE c"
  by (auto simp: is_digit_def Py_ISSPACE_def)

lemma is_digit_not_sign:
  "is_digit c \<Longrightarrow> c \<noteq> of_char (CHR ''+'') \<and> c \<noteq> of_char (CHR ''-'') \<and> c \<noteq> underscore"
  by (auto simp: is_digit_def underscore_def)

lemma is_digit_ascii: "is_digit c \<Longrightarrow> c < 128"
  by (simp add: is_digit_def)

lemma no_double_underscore_digits:
  "\<forall>c \<in> set s. is_digit c \<Longrightarrow> no_double_underscore s"
proof (induction s rule: no_double_underscore.induct)
  case (1 a b cs)
  then show ?case using is_digit_not_sign [of a] by simp
qed simp_all

lemma py_int_str_digits:
  assumes "s \<noteq> []" and "\<forall>c \<in> set s. is_digit c" and "length s \<le> 4300"
  shows "py_int_str s = Inr (foldl (\<lambda>acc c. 10 * acc + digit_value c) 0 s)"
proof -
  obtain c cs where s: "s = c # cs"
    using assms(1) by (cases s) simp_all
  have c: "is_digit c" using assms(2) s by simp
  have a: "TransformDecimalAndSpaceToASCII s = s"
    using assms(2) is_digit_ascii
    by (simp add: TransformDecimalAndSpaceToASCII_def list_all_iff)
  have d1: "dropWhile Py_ISSPACE s = s"
    using is_digit_not_space [OF c] by (simp add: s)
  have hd: "hd s \<noteq> of_char (CHR ''+'')" "hd s \<noteq> of_char (CHR ''-'')" "hd s \<noteq> underscore"
    using is_digit_not_sign [OF c] by (simp_all add: s)
  have t: "takeWhile (\<lambda>c. is_digit c \<or> c = underscore) s = s"
    using assms(2) by (simp add: takeWhile_eq_all_conv)
  have d2: "dropWhile (\<lambda>c. is_digit c \<or> c = underscore) s = []"
    using assms(2) by (simp add: dropWhile_eq_Nil_conv)
  have f: "filter is_digit s = s"
    using assms(2) by (simp add: filter_id_conv)
  have "last s \<in> set s" using assms(1) by simp
  then have l: "last s \<noteq> underscore"
    using assms(2) is_digit_not_sign by blast
  have v: "valid_digits s"
    using assms(1,3) hd(3) l no_double_underscore_digits [OF assms(2)]
    by (simp add: valid_digits_def f max_str_digits_def)
  show ?thesis
    using assms(1) hd(1,2) v
    by (simp add: py_int_str_def Let_def a d1 t d2 digits_to_int_def f)
qed

lemma foldl_zeros:
  "foldl (\<lambda>acc c. 10 * acc + digit_value c) a (replicate k (of_char (CHR ''0''))) = a * 10 ^ k"
  by (induction k arbitrary: a) (simp_all add: digit_value_def)

lemma py_int_huge_age: "py_int (Some huge_age) = Inr (2 * 10 ^ 308)"
proof -
  have d: "10 * 0 + digit_value (of_char (CHR ''2'')) = 2"
    by (simp add: digit_value_def)
  have "py_int_str huge_age =
      Inr (foldl (\<lambda>acc c. 10 * acc + digit_value c) 0
             (of_char (CHR ''2'') # replicate 308 (of_char (CHR ''0''))))"
    unfolding huge_age_def
    by (rule py_int_str_digits) (simp_all add: is_digit_def)
  also have "\<dots> = Inr (2 * 10 ^ 308)"
    by (simp only: foldl_Cons d foldl_zeros)
  finally show ?thesis
    by (simp only: py_int_def option.case)
qed

lemma parsed_ages_huge_age_db: "parsed_ages (stored huge_age_db) = [2 * 10 ^ 308]"
  by (simp add: stored_def huge_age_db_def Patient_of_row_def parsed_ages_def parses_def
      py_int_huge_age)

section \<open>The claims about the aggregation\<close>

text \<open>
  C9.  \<^verbatim>\<open>calculate_batch_average_age\<close> is total: on every list of patients whose ages are
  strings or \<^verbatim>\<open>None\<close> it raises nothing and returns a pair of a sum and a count; the count
  lies between 0 and the length of the list, and the sum and the count are those of
  exactly the ages that parse as integers.
\<close>

theorem calculate_batch_average_age_total:
  "\<exists>s c. calculate_batch_average_age ps = Inr (s, c)
     \<and> 0 \<le> c \<and> c \<le> int (length ps)
     \<and> s = sum_list (parsed_ages ps) \<and> c = int (length (parsed_ages ps))"
  by (simp add: calculate_batch_average_age_def batch_loop_eq length_parsed_ages)

text \<open>
  C1.  The batched \<^verbatim>\<open>calculate_average_age\<close>, with any batch size of at least one (its
  default is five), and the single-pass \<^verbatim>\<open>calculate_average_ages\<close> have the same outcome
  on every database: the same \<^verbatim>\<open>None\<close>, the same average or the same exception, and the
  same state afterwards.
\<close>

theorem average_age_variants_agree:
  "1 \<le> batch_size \<Longrightarrow> calculate_average_age batch_size d = calculate_average_ages d"
  by (simp add: calculate_average_age_eq calculate_average_ages_eq)

theorem average_age_variants_agree_witness:
  "(1::int) \<le> 5 \<and> calculate_average_age 5 test_db = calculate_average_ages test_db
   \<and> fst (calculate_average_age 5 test_db) = Inr (Some (6427011968226645 / 140737488355328))"
  using average_age_variants_agree [of 5 test_db]
  by (simp add: calculate_average_ages_test_db)

text \<open>
  C2.  The result of \<^verbatim>\<open>calculate_average_age\<close> does not depend on the batch size: any two
  batch sizes of at least one give the same outcome on the same database.
\<close>

theorem batch_size_invariance:
  "1 \<le> b1 \<Longrightarrow> 1 \<le> b2 \<Longrightarrow> calculate_average_age b1 d = calculate_average_age b2 d"
  by (simp add: calculate_average_age_eq)

theorem batch_size_invariance_witness:
  "(1::int) \<le> 1 \<and> (1::int) \<le> 3 \<and> calculate_average_age 1 test_db = calculate_average_age 3 test_db
   \<and> fst (calculate_average_age 3 test_db) = Inr (Some (6427011968226645 / 140737488355328))"
proof -
  have "calculate_average_age 3 test_db = calculate_average_ages test_db"
    by (simp add: calculate_average_age_eq calculate_average_ages_eq)
  then show ?thesis
    using batch_size_invariance [of 1 3 test_db]
    by (simp add: calculate_average_ages_test_db)
qed

text \<open>
  C4.  When the table is empty, or none of its records has an age that parses as an
  integer, the average age is \<^verbatim>\<open>None\<close> (no valid data), which is not the number zero.
  This holds for both variants, whatever the storage engine does.
\<close>

theorem no_valid_data_is_None:
  "1 \<le> batch_size \<Longrightarrow> \<forall>p \<in> set (stored d). \<not> parses (age p) \<Longrightarrow>
     fst (calculate_average_age batch_size d) = Inr None
     \<and> fst (calculate_average_ages d) = Inr None
     \<and> (Inr None :: py_error + rat option) \<noteq> Inr (Some 0)"
proof -
  assume b: "1 \<le> batch_size" and none: "\<forall>p \<in> set (stored d). \<not> parses (age p)"
  have "parsed_ages (fst (read_all_patients d)) = []"
    using none by (simp add: read_all_patients_eq parsed_ages_empty_iff)
  then show ?thesis
    using b by (simp add: calculate_average_age_eq calculate_average_ages_eq)
qed

theorem no_valid_data_is_None_witness:
  "(1::int) \<le> 5 \<and> list_all (\<lambda>p. \<not> parses (age p)) (stored no_age_db)
   \<and> fst (calculate_average_age 5 no_age_db) = Inr None
   \<and> fst (calculate_average_ages no_age_db) = Inr None"
proof -
  have s: "stored no_age_db =
     [\<lparr>id' = Some 1, name = Some (ascii ''A''), age = Some (ascii ''invalid''), disease = Some (ascii ''Asthma'')\<rparr>,
      \<lparr>id' = Some 2, name = Some (ascii ''B''), age = Some (ascii ''4.5''), disease = Some (ascii ''Flu'')\<rparr>]"
    by (simp add: stored_def no_age_db_def Patient_of_row_def)
  have h: "\<forall>p \<in> set (stored no_age_db). \<not> parses (age p)"
    by (simp add: s parses_def py_int_test_ages)
  show ?thesis
    using no_valid_data_is_None [of 5 no_age_db] h by (simp add: list_all_iff)
qed

text \<open>
  C3, as amended.  The average age leaves out the records whose age does not parse as an
  integer and averages the others: for every list of records that the aggregation reads
  with at least one age that parses, the result is the float nearest to the quotient of the
  sum of the parsed ages by their number, as long as that quotient is below
  \<open>2 ^ 1024 - 2 ^ 970\<close> in magnitude; from that bound on, the division raises
  \<open>OverflowError\<close> and there is no result.  An age that does not parse never ends the
  computation: no \<open>ValueError\<close> or \<open>TypeError\<close> leaves it.  The records read are those of the
  table unless the storage engine raises during the read.
\<close>

theorem average_of_parseable_ages:
  assumes "1 \<le> batch_size" and "parsed_ages (fst (read_all_patients d)) \<noteq> []"
  shows "fst (calculate_average_age batch_size d) =
           (if (2 ^ 1024 - 2 ^ 970) * int (length (parsed_ages (fst (read_all_patients d))))
                 \<le> \<bar>sum_list (parsed_ages (fst (read_all_patients d)))\<bar>
            then Inl OverflowError
            else Inr (Some (nearest_binary64 (sum_list (parsed_ages (fst (read_all_patients d))))
                              (int (length (parsed_ages (fst (read_all_patients d))))))))
       \<and> fst (calculate_average_age batch_size d) \<noteq> Inl ValueError
       \<and> fst (calculate_average_age batch_size d) \<noteq> Inl TypeError
       \<and> (next_fault d = None \<longrightarrow> fst (read_all_patients d) = stored d)"
proof -
  have n: "0 < int (length (parsed_ages (fst (read_all_patients d))))"
    using assms(2) by simp
  have "next_fault d = None \<longrightarrow> fst (read_all_patients d) = stored d"
    by (simp add: read_all_patients_eq)
  then show ?thesis
    using assms(2)
    by (simp add: calculate_average_age_eq [OF assms(1)] average_of_def py_truediv_pos [OF n])
qed

theorem average_of_parseable_ages_witness:
  "(1::int) \<le> 5 \<and> parsed_ages (fst (read_all_patients test_db)) = [45, 32, 60]
   \<and> fst (read_all_patients test_db) = stored test_db
   \<and> fst (calculate_average_age 5 test_db) = Inr (Some (6427011968226645 / 140737488355328))
   \<and> nearest_binary64 (45 + 32 + 60) 3 = 6427011968226645 / 140737488355328
   \<and> \<bar>6427011968226645 / 140737488355328 - 4567 / 100\<bar> < (1 / 200 :: rat)
   \<and> py_round (6427011968226645 / 140737488355328) 2 = 3213740546593915 / 70368744177664"
proof -
  have f: "next_fault test_db = None"
    by (simp add: next_fault_def test_db_def)
  have r: "fst (read_all_patients test_db) = stored test_db"
    by (simp add: read_all_patients_eq f)
  have p: "parsed_ages (fst (read_all_patients test_db)) \<noteq> []"
    by (simp add: r parsed_ages_test_db)
  have v: "nearest_binary64 137 3 = 6427011968226645 / 140737488355328"
    by (simp add: float_eval)
  show ?thesis
    using average_of_parseable_ages [OF _ p, of 5]
    by (simp add: r parsed_ages_test_db v py_round_test_average)
qed

text \<open>
  The claim as first stated fails on a table whose only age has 309 digits: the age
  parses, the sum and the count are formed, and the division raises \<open>OverflowError\<close>.
\<close>

theorem average_of_huge_age_overflows:
  "parsed_ages (stored huge_age_db) = [2 * 10 ^ 308] \<and> next_fault huge_age_db = None
   \<and> fst (calculate_average_age 5 huge_age_db) = Inl OverflowError
   \<and> fst (calculate_average_ages huge_age_db) = Inl OverflowError"
proof -
  have f: "next_fault huge_age_db = None"
    by (simp add: next_fault_def huge_age_db_def)
  show ?thesis
    by (simp add: calculate_average_age_eq calculate_average_ages_eq read_all_patients_eq f
        parsed_ages_huge_age_db average_of_def py_truediv_pos)
qed

section \<open>The claims about the record store\<close>

text \<open>
  C5.  Start from an empty table and make any sequence of \<^verbatim>\<open>create_patient\<close> calls that all
  succeed.  If the storage engine raises nothing during the read, \<^verbatim>\<open>read_all_patients\<close>
  then returns exactly the created records, in the order of their creation, each with the
  identifier that its call returned.  These identifiers are consecutive numbers above the
  sequence of the table, so they are distinct and owe nothing to the \<^verbatim>\<open>id\<close> attribute of the
  objects that the caller passed.  On the empty table \<^verbatim>\<open>read_all_patients\<close> returns the empty
  list.
\<close>

theorem read_all_after_creates:
  assumes "patients_table d = []"
    and "create_each ps d = (new_ids, d')"
    and "\<forall>i \<in> set new_ids. i \<noteq> None"
    and "next_fault d' = None"
  shows "fst (read_all_patients d') = map2 (\<lambda>i p. p\<lparr>id' := i\<rparr>) new_ids ps
       \<and> new_ids = map (\<lambda>k. Some (sqlite_sequence d + 1 + int k)) [0..<length ps]
       \<and> distinct new_ids
       \<and> fst (read_all_patients d) = []"
proof -
  have l: "largest_rowid d = sqlite_sequence d"
    using assms(1) by (simp add: largest_rowid_def)
  from create_each_rows [OF assms(2,3)] l assms(1)
  have n: "new_ids = map (\<lambda>k. Some (sqlite_sequence d + 1 + int k)) [0..<length ps]"
    and r: "map Patient_of_row (patients_table d') = map2 (\<lambda>i p. p\<lparr>id' := i\<rparr>) new_ids ps"
    by simp_all
  have "distinct new_ids"
    unfolding n by (rule distinct_upward_ids)
  moreover have "fst (read_all_patients d') = map2 (\<lambda>i p. p\<lparr>id' := i\<rparr>) new_ids ps"
    using assms(4) r by (simp add: read_all_patients_eq stored_def)
  moreover have "fst (read_all_patients d) = []"
    using assms(1) by (simp add: read_all_patients_eq stored_def)
  ultimately show ?thesis
    using n by simp
qed

theorem read_all_after_creates_witness:
  "patients_table empty_db = []
   \<and> fst (create_each two_patients empty_db) = [Some 1, Some 2]
   \<and> fst (read_all_patients (snd (create_each two_patients empty_db))) =
       [\<lparr>id' = Some 1, name = Some (ascii ''John Doe''), age = Some (ascii ''45''), disease = Some (ascii ''Hypertension'')\<rparr>,
        \<lparr>id' = Some 2, name = Some (ascii ''Jane Smith''), age = Some (ascii ''32''), disease = Some (ascii ''Diabetes'')\<rparr>]
   \<and> fst (read_all_patients empty_db) = []"
proof -
  have c: "create_each two_patients empty_db =
      ([Some 1, Some 2],
       \<lparr>patients_table = [(1, (ascii ''John Doe''), (ascii ''45''), (ascii ''Hypertension'')), (2, (ascii ''Jane Smith''), (ascii ''32''), (ascii ''Diabetes''))],
        sqlite_sequence = 2, faults = []\<rparr>)"
    by (simp add: two_patients_def empty_db_def create_patient_def execute_def largest_rowid_def)
  have e: "patients_table empty_db = []"
    by (simp add: empty_db_def)
  have m: "map2 (\<lambda>i p. p\<lparr>id' := i\<rparr>) [Some 1, Some 2] two_patients =
      [\<lparr>id' = Some 1, name = Some (ascii ''John Doe''), age = Some (ascii ''45''), disease = Some (ascii ''Hypertension'')\<rparr>,
       \<lparr>id' = Some 2, name = Some (ascii ''Jane Smith''), age = Some (ascii ''32''), disease = Some (ascii ''Diabetes'')\<rparr>]"
    by (simp add: two_patients_def)
  show ?thesis
    using read_all_after_creates [OF e c] e
    by (simp add: c m next_fault_def)
qed

text \<open>
  C6.  \<^verbatim>\<open>update_patient\<close> with an identifier that no row of the table carries (or with no
  identifier at all) returns 0 and leaves the rows and the sequence as they were, whatever
  the storage engine does.  No update adds or removes a row: the identifiers in the table
  are the same before and after.
\<close>

theorem update_absent_id:
  "((\<forall>r \<in> set (patients_table d). Some (fst r) \<noteq> id' patient) \<longrightarrow>
      fst (update_patient patient d) = 0
      \<and> patients_table (snd (update_patient patient d)) = patients_table d
      \<and> sqlite_sequence (snd (update_patient patient d)) = sqlite_sequence d)
   \<and> ids (snd (update_patient patient d)) = ids d"
  by (simp add: update_patient_absent update_patient_ids)

theorem update_absent_id_witness:
  "list_all (\<lambda>r. Some (fst r) \<noteq> Some 999) (patients_table test_db)
   \<and> fst (update_patient \<lparr>id' = Some 999, name = Some (ascii ''X''), age = Some (ascii ''1''), disease = Some (ascii ''Y'')\<rparr> test_db) = 0
   \<and> patients_table (snd (update_patient \<lparr>id' = Some 999, name = Some (ascii ''X''), age = Some (ascii ''1''), disease = Some (ascii ''Y'')\<rparr> test_db))
       = patients_table test_db"
proof -
  have h: "\<forall>r \<in> set (patients_table test_db).
             Some (fst r) \<noteq> id' \<lparr>id' = Some 999, name = Some (ascii ''X''), age = Some (ascii ''1''), disease = Some (ascii ''Y'')\<rparr>"
    by (simp add: test_db_def)
  show ?thesis
    using update_absent_id [of test_db "\<lparr>id' = Some 999, name = Some (ascii ''X''), age = Some (ascii ''1''), disease = Some (ascii ''Y'')\<rparr>"] h
    by (simp add: list_all_iff)
qed

text \<open>
  C7.  In a well-formed table that holds the identifier, and when the storage engine raises
  nothing during the first deletion, \<^verbatim>\<open>delete_patient\<close> returns 1; after it
  \<^verbatim>\<open>read_patient_by_id\<close> returns \<^verbatim>\<open>None\<close>, and a second \<^verbatim>\<open>delete_patient\<close>, made at once or after
  that read, returns 0: deleting an absent identifier is not an error.
\<close>

theorem delete_then_read_then_delete:
  assumes "well_formed d" and "i \<in> set (ids d)" and "next_fault d = None"
  shows "fst (delete_patient i d) = 1
       \<and> fst (read_patient_by_id i (snd (delete_patient i d))) = None
       \<and> fst (delete_patient i (snd (delete_patient i d))) = 0
       \<and> fst (delete_patient i (snd (read_patient_by_id i (snd (delete_patient i d))))) = 0"
proof -
  have r: "in_int64 i" "distinct (map fst (patients_table d))" "i \<in> fst ` set (patients_table d)"
    using assms(1,2) by (auto simp: well_formed_def ids_def list_all_iff)
  let ?d1 = "(after_connection d)\<lparr>patients_table := filter (\<lambda>r. fst r \<noteq> i) (patients_table d)\<rparr>"
  have del: "delete_patient i d = (1, ?d1)"
    using delete_patient_ok [OF assms(3) r(1)] count_distinct_id [OF r(2,3)] by simp
  have gone: "i \<notin> set (ids ?d1)"
    by (auto simp: ids_def)
  then have gone': "i \<notin> set (ids (snd (read_patient_by_id i ?d1)))"
    by (simp add: read_patient_by_id_db)
  show ?thesis
    using read_patient_by_id_absent [OF gone] delete_patient_absent [OF gone]
      delete_patient_absent [OF gone']
    by (simp add: del)
qed

theorem delete_then_read_then_delete_witness:
  "well_formed test_db \<and> 2 \<in> set (ids test_db) \<and> next_fault test_db = None
   \<and> fst (delete_patient 2 test_db) = 1
   \<and> fst (read_patient_by_id 2 (snd (delete_patient 2 test_db))) = None
   \<and> fst (delete_patient 2 (snd (delete_patient 2 test_db))) = 0"
proof -
  have h: "well_formed test_db" "2 \<in> set (ids test_db)" "next_fault test_db = None"
    by (simp_all add: well_formed_def ids_def test_db_def in_int64_def next_fault_def)
  show ?thesis
    using delete_then_read_then_delete [OF h] h by simp
qed

text \<open>
  C8.  When the storage engine raises an exception during the connection, whatever the
  exception, \<^verbatim>\<open>update_patient\<close> and \<^verbatim>\<open>delete_patient\<close> return 0 and \<^verbatim>\<open>read_patient_by_id\<close>
  returns \<^verbatim>\<open>None\<close>: the values that they return, without any exception, for an identifier
  that the table does not hold.
\<close>

theorem storage_failure_looks_like_absence:
  assumes "next_fault d = Some e"
    and "next_fault d0 = None" and "j \<notin> set (ids d0)" and "id' patient0 = Some j"
  shows "fst (update_patient patient d) = 0 \<and> fst (update_patient patient0 d0) = 0
       \<and> fst (delete_patient i d) = 0 \<and> fst (delete_patient j d0) = 0
       \<and> fst (read_patient_by_id i d) = None \<and> fst (read_patient_by_id j d0) = None"
proof -
  have "\<forall>r \<in> set (patients_table d0). Some (fst r) \<noteq> id' patient0"
    using assms(3,4) by (auto simp: ids_def)
  then have "fst (update_patient patient0 d0) = 0"
    by (simp add: update_patient_absent)
  then show ?thesis
    using operations_on_failure(1-3) [OF assms(1)] delete_patient_absent [OF assms(3)]
      read_patient_by_id_absent [OF assms(3)]
    by simp
qed

theorem storage_failure_looks_like_absence_witness:
  "next_fault failing_db = Some OperationalError \<and> 2 \<in> set (ids failing_db)
   \<and> next_fault test_db = None \<and> 999 \<notin> set (ids test_db)
   \<and> fst (update_patient \<lparr>id' = Some 2, name = Some (ascii ''X''), age = Some (ascii ''1''), disease = Some (ascii ''Y'')\<rparr> failing_db) = 0
   \<and> fst (update_patient \<lparr>id' = Some 999, name = Some (ascii ''X''), age = Some (ascii ''1''), disease = Some (ascii ''Y'')\<rparr> test_db) = 0
   \<and> fst (delete_patient 2 failing_db) = 0 \<and> fst (delete_patient 999 test_db) = 0
   \<and> fst (read_patient_by_id 2 failing_db) = None \<and> fst (read_patient_by_id 999 test_db) = None"
proof -
  have f: "next_fault failing_db = Some OperationalError" "2 \<in> set (ids failing_db)"
    by (simp_all add: failing_db_def test_db_def next_fault_def ids_def)
  have t: "next_fault test_db = None" "999 \<notin> set (ids test_db)"
    by (simp_all add: test_db_def next_fault_def ids_def)
  have p: "id' \<lparr>id' = Some 999, name = Some (ascii ''X''), age = Some (ascii ''1''), disease = Some (ascii ''Y'')\<rparr> = Some 999"
    by simp
  show ?thesis
    using storage_failure_looks_like_absence [OF f(1) t p,
        of "\<lparr>id' = Some 2, name = Some (ascii ''X''), age = Some (ascii ''1''), disease = Some (ascii ''Y'')\<rparr>" 2] f t
    by simp
qed

section \<open>The claim about the endpoint\<close>




end
